theory Spec2Isabelle
  imports Main "HOL-Library.Sublist"
begin

section \<open>JavaScript strings and values\<close>

text \<open>
  A JavaScript string is a sequence of UTF-16 code units.  A code unit is modelled as a
  natural number, so that every character class of the source's regular expressions can
  be written exactly; \<open>js\<close> turns an ASCII literal into such a sequence.
\<close>

type_synonym jstring = "nat list"

definition js :: "string \<Rightarrow> jstring" where
  "js s = map of_char s"

text \<open>
  \<open>\s\<close> of a regular expression and the characters removed by \<open>String.prototype.trim\<close>
  are the same set: WhiteSpace and LineTerminator of ECMAScript.
\<close>

definition is_space :: "nat \<Rightarrow> bool" where
  "is_space c \<longleftrightarrow>
     c = 9 \<or> c = 10 \<or> c = 11 \<or> c = 12 \<or> c = 13 \<or> c = 32 \<or> c = 160 \<or> c = 5760 \<or>
     (8192 \<le> c \<and> c \<le> 8202) \<or> c = 8232 \<or> c = 8233 \<or> c = 8239 \<or> c = 8287 \<or>
     c = 12288 \<or> c = 65279"

definition non_space :: "nat \<Rightarrow> bool" where
  "non_space c \<longleftrightarrow> \<not> is_space c"

text \<open>\<open>\w\<close> is \<open>[A-Za-z0-9_]\<close> (the patterns carry no \<open>i\<close> or \<open>u\<close> flag).\<close>

definition is_word :: "nat \<Rightarrow> bool" where
  "is_word c \<longleftrightarrow> (48 \<le> c \<and> c \<le> 57) \<or> (65 \<le> c \<and> c \<le> 90) \<or> c = 95 \<or> (97 \<le> c \<and> c \<le> 122)"

text \<open>\<open>.\<close> matches every code unit but the line terminators (no \<open>s\<close> flag).\<close>

definition is_dot :: "nat \<Rightarrow> bool" where
  "is_dot c \<longleftrightarrow> \<not> (c = 10 \<or> c = 13 \<or> c = 8232 \<or> c = 8233)"

text \<open>\<open>["']\<close>, \<open>[\/\\]\<close> and \<open>[\w.]\<close>.\<close>

definition is_quote :: "nat \<Rightarrow> bool" where
  "is_quote c \<longleftrightarrow> c = 34 \<or> c = 39"

definition is_sep :: "nat \<Rightarrow> bool" where
  "is_sep c \<longleftrightarrow> c = 47 \<or> c = 92"

definition is_word_or_dot :: "nat \<Rightarrow> bool" where
  "is_word_or_dot c \<longleftrightarrow> is_word c \<or> c = 46"

definition trim :: "jstring \<Rightarrow> jstring" where
  "trim s = rev (dropWhile is_space (rev (dropWhile is_space s)))"

text \<open>
  The values a tool input can hold: what \<open>JSON.parse\<close> produces, and \<open>undefined\<close> for a
  property that is absent.  An object is the list of its properties.
\<close>

datatype jsval =
    JUndef
  | JNull
  | JBool bool
  | JNum int
  | JStr jstring
  | JArr "jsval list"
  | JObj "(jstring \<times> jsval) list"

fun truthy :: "jsval \<Rightarrow> bool" where
  "truthy JUndef = False"
| "truthy JNull = False"
| "truthy (JBool b) = b"
| "truthy (JNum i) = (i \<noteq> 0)"
| "truthy (JStr s) = (s \<noteq> [])"
| "truthy (JArr xs) = True"
| "truthy (JObj fs) = True"

section \<open>Regular expressions with backtracking\<close>

text \<open>
  The regular expressions of the source use literals, character classes, \<open>^\<close>, \<open>$\<close>,
  sequence, alternation and the greedy quantifiers \<open>*\<close>, \<open>+\<close> and \<open>?\<close>.
  \<open>rmatch r n s\<close> lists, in the order in which the backtracking matcher of ECMAScript
  tries them, the inputs left over after \<open>r\<close> has matched a prefix of \<open>s\<close>; \<open>n\<close> is the
  length of the whole input, so that \<open>^\<close> holds where \<open>n\<close> code units are left.
  A quantifier gives up an iteration that consumes nothing, as RepeatMatcher does.
\<close>

datatype rx =
    Lit jstring
  | Sat "nat \<Rightarrow> bool"
  | Bol
  | Eol
  | Seq rx rx
  | Alt rx rx
  | Star rx
  | Opt rx

abbreviation Many1 :: "rx \<Rightarrow> rx" where
  "Many1 r \<equiv> Seq r (Star r)"

function rmatch :: "rx \<Rightarrow> nat \<Rightarrow> jstring \<Rightarrow> jstring list" where
  "rmatch (Lit w) n s = (if prefix w s then [drop (length w) s] else [])"
| "rmatch (Sat P) n s = (case s of [] \<Rightarrow> [] | c # cs \<Rightarrow> if P c then [cs] else [])"
| "rmatch Bol n s = (if length s = n then [s] else [])"
| "rmatch Eol n s = (if s = [] then [s] else [])"
| "rmatch (Seq r1 r2) n s = concat (map (rmatch r2 n) (rmatch r1 n s))"
| "rmatch (Alt r1 r2) n s = rmatch r1 n s @ rmatch r2 n s"
| "rmatch (Star r) n s =
     concat (map (\<lambda>s'. if length s' < length s then rmatch (Star r) n s' else [])
                 (rmatch r n s)) @ [s]"
| "rmatch (Opt r) n s = filter (\<lambda>s'. length s' < length s) (rmatch r n s) @ [s]"
  by pat_completeness auto
termination
  by (relation "measures [\<lambda>(r, n, s). size r, \<lambda>(r, n, s). length s]") auto

declare rmatch.simps [simp del]

text \<open>The equations of \<open>rmatch\<close> at an input whose first constructor is known.\<close>

lemmas rmatch_eval =
  rmatch.simps [where s = "[]"] rmatch.simps [where s = "c # cs" for c cs]

fun seqs :: "rx list \<Rightarrow> rx" where
  "seqs [] = Lit []"
| "seqs [r] = r"
| "seqs (r # rs) = Seq r (seqs rs)"

fun alts :: "rx list \<Rightarrow> rx" where
  "alts [] = Sat (\<lambda>c. False)"
| "alts [r] = r"
| "alts (r # rs) = Alt r (alts rs)"

definition lit :: "string \<Rightarrow> rx" where
  "lit w = Lit (js w)"

definition ws :: rx where
  "ws = Sat is_space"

text \<open>
  \<open>RegExp.prototype.exec\<close> of a pattern without the \<open>g\<close> and \<open>y\<close> flags: the first
  start index, from 0 up to the length, at which the pattern matches.  The result is the
  text before the match and the text after it.
\<close>

fun search :: "rx \<Rightarrow> nat \<Rightarrow> jstring \<Rightarrow> jstring \<Rightarrow> (jstring \<times> jstring) option" where
  "search r n pre [] = (case rmatch r n [] of [] \<Rightarrow> None | e # _ \<Rightarrow> Some (pre, e))"
| "search r n pre (c # cs) =
     (case rmatch r n (c # cs) of [] \<Rightarrow> search r n (pre @ [c]) cs | e # _ \<Rightarrow> Some (pre, e))"

definition regex_exec :: "rx \<Rightarrow> jstring \<Rightarrow> (jstring \<times> jstring) option" where
  "regex_exec r s = search r (length s) [] s"

definition regex_test :: "rx \<Rightarrow> jstring \<Rightarrow> bool" where
  "regex_test r s \<longleftrightarrow> regex_exec r s \<noteq> None"

text \<open>\<open>s.replace(r, '')\<close> for a pattern without the \<open>g\<close> flag: the first match is removed.\<close>

definition replace_empty :: "rx \<Rightarrow> jstring \<Rightarrow> jstring" where
  "replace_empty r s = (case regex_exec r s of None \<Rightarrow> s | Some (pre, e) \<Rightarrow> pre @ e)"

text \<open>
  \<open>s.match(r)[1]\<close> for a pattern \<open>pre(grp)post\<close> with one capturing group: the matches of
  \<open>pre\<close> are tried in order, for each of them the matches of \<open>grp\<close>, and the first one
  after which \<open>post\<close> matches is taken; the capture is the text \<open>grp\<close> consumed there.
\<close>

definition group_at :: "rx \<Rightarrow> rx \<Rightarrow> rx \<Rightarrow> nat \<Rightarrow> jstring \<Rightarrow> jstring list" where
  "group_at pre grp post n s =
     concat (map (\<lambda>a. concat (map (\<lambda>b. if rmatch post n b = [] then []
                                          else [take (length a - length b) a])
                                   (rmatch grp n a)))
                 (rmatch pre n s))"

fun search_group :: "rx \<Rightarrow> rx \<Rightarrow> rx \<Rightarrow> nat \<Rightarrow> jstring \<Rightarrow> jstring option" where
  "search_group pre grp post n [] =
     (case group_at pre grp post n [] of [] \<Rightarrow> None | g # _ \<Rightarrow> Some g)"
| "search_group pre grp post n (c # cs) =
     (case group_at pre grp post n (c # cs) of
        [] \<Rightarrow> search_group pre grp post n cs
      | g # _ \<Rightarrow> Some g)"

definition match_group :: "rx \<Rightarrow> rx \<Rightarrow> rx \<Rightarrow> jstring \<Rightarrow> jstring option" where
  "match_group pre grp post s = search_group pre grp post (length s) s"

text \<open>
  \<open>s.split(r)\<close> (RegExp.prototype[@@split] without a limit): \<open>acc\<close> is the text from the
  end \<open>p\<close> of the last separator to the index \<open>q\<close> under inspection, and the last argument
  is the input from \<open>q\<close> on.  The pattern is matched at \<open>q\<close> only; where it fails, or
  its match ends at \<open>p\<close>, \<open>q\<close> advances by one code unit.
\<close>

function split_loop :: "rx \<Rightarrow> nat \<Rightarrow> jstring \<Rightarrow> jstring \<Rightarrow> jstring list" where
  "split_loop r n acc [] = [acc]"
| "split_loop r n acc (c # cs) =
     (case rmatch r n (c # cs) of
        [] \<Rightarrow> split_loop r n (acc @ [c]) cs
      | e # _ \<Rightarrow>
          if length e < Suc (length cs) then acc # split_loop r n [] e
          else if acc = [] then split_loop r n [c] cs
          else acc # split_loop r n [] (c # cs))"
  by pat_completeness auto
termination
  by (relation "measures [\<lambda>(r, n, acc, s). length s, \<lambda>(r, n, acc, s). length acc]") auto

definition js_split :: "rx \<Rightarrow> jstring \<Rightarrow> jstring list" where
  "js_split r s =
     (if s = [] then (if rmatch r 0 [] = [] then [[]] else [])
      else split_loop r (length s) [] s)"

section \<open>The command patterns of scout-checker.cjs\<close>

definition BUILD_COMMAND_PATTERN :: rx where
  "BUILD_COMMAND_PATTERN = seqs
     [Bol,
      alts (map lit [''npm'', ''pnpm'', ''yarn'', ''bun'']),
      Many1 ws,
      Star (Seq (Many1 (Sat non_space)) (Many1 ws)),
      Opt (Seq (lit ''run'') (Many1 ws)),
      alts (map lit [''build'', ''test'', ''lint'', ''dev'', ''start'', ''install'', ''ci'',
        ''add'', ''remove'', ''update'', ''publish'', ''pack'', ''init'', ''create'', ''exec''])]"

definition TOOL_COMMAND_PATTERN :: rx where
  "TOOL_COMMAND_PATTERN = seqs
     [Bol,
      Opt (lit ''./''),
      alts (map lit [''npx'', ''pnpx'', ''bunx'', ''tsc'', ''esbuild'', ''vite'', ''webpack'',
          ''rollup'', ''turbo'', ''nx'', ''jest'', ''vitest'', ''mocha'', ''eslint'',
          ''prettier'', ''go'', ''cargo'', ''make'', ''mvn'', ''mvnw'', ''gradle'', ''gradlew'',
          ''dotnet'', ''docker'', ''podman'', ''kubectl'', ''helm'', ''terraform'', ''ansible'',
          ''bazel'', ''cmake'', ''sbt'', ''flutter'', ''swift'', ''ant'', ''ninja'', ''meson'']
        @ [Seq (lit ''python'') (Opt (lit ''3''))]
        @ map lit [''pip'', ''uv'', ''deno'', ''bundle'', ''rake'', ''gem'', ''php'', ''composer'',
          ''ruby'', ''mix'', ''elixir''])]"

definition VENV_EXECUTABLE_PATTERN :: rx where
  "VENV_EXECUTABLE_PATTERN = seqs
     [Alt Bol (Sat is_sep),
      Opt (lit ''.''),
      lit ''venv'',
      Sat is_sep,
      Alt (lit ''bin'') (lit ''Scripts''),
      Sat is_sep]"

definition VENV_CREATION_PATTERN :: rx where
  "VENV_CREATION_PATTERN = alts
     [seqs [Bol,
            Alt (Seq (lit ''python'') (Opt (lit ''3''))) (lit ''py''),
            Many1 ws,
            Star (seqs [lit ''-'', Many1 (Sat is_word_or_dot), Many1 ws]),
            lit ''-m'', Many1 ws, lit ''venv'', Many1 ws],
      seqs [Bol, lit ''uv'', Many1 ws, lit ''venv'', Alt ws Eol],
      seqs [Bol, lit ''virtualenv'', Many1 ws]]"

text \<open>The patterns written inline in the helper functions.\<close>

definition ENV_ASSIGN_PATTERN :: rx where
  "ENV_ASSIGN_PATTERN =
     Seq Bol (Many1 (seqs [Many1 (Sat is_word), lit ''='', Many1 (Sat non_space), Many1 ws]))"

definition WRAPPER_PATTERN :: rx where
  "WRAPPER_PATTERN = seqs
     [Bol, alts (map lit [''sudo'', ''env'', ''nice'', ''nohup'', ''time'', ''timeout'']), Many1 ws]"

definition SPLIT_PATTERN :: rx where
  "SPLIT_PATTERN = seqs [Star ws, alts [lit ''&&'', lit ''||'', lit '';''], Star ws]"

text \<open>
  The pattern of \<open>unwrapShellExecutor\<close>, \<open>^(?:(?:bash|sh|zsh)\s+-c|eval)\s+["'](.+)["']\s*$\<close>,
  in the three parts around its capturing group.
\<close>

definition EXECUTOR_PRE :: rx where
  "EXECUTOR_PRE = seqs
     [Bol,
      Alt (seqs [alts (map lit [''bash'', ''sh'', ''zsh'']), Many1 ws, lit ''-c'']) (lit ''eval''),
      Many1 ws,
      Sat is_quote]"

definition EXECUTOR_GROUP :: rx where
  "EXECUTOR_GROUP = Many1 (Sat is_dot)"

definition EXECUTOR_POST :: rx where
  "EXECUTOR_POST = seqs [Sat is_quote, Star ws, Eol]"

section \<open>The helper functions of scout-checker.cjs\<close>

text \<open>
  Every helper starts with \<open>if (!command || typeof command !== 'string')\<close>: a value that is
  not a string, and the empty string, take the early return.
\<close>

fun stripCommandPrefix :: "jsval \<Rightarrow> jsval" where
  "stripCommandPrefix (JStr s) =
     (if s = [] then JStr s
      else JStr (trim (replace_empty ENV_ASSIGN_PATTERN
                        (replace_empty WRAPPER_PATTERN
                          (replace_empty ENV_ASSIGN_PATTERN (trim s))))))"
| "stripCommandPrefix v = v"

fun isBuildCommand :: "jsval \<Rightarrow> bool" where
  "isBuildCommand (JStr s) =
     (if s = [] then False
      else regex_test BUILD_COMMAND_PATTERN (trim s) \<or> regex_test TOOL_COMMAND_PATTERN (trim s))"
| "isBuildCommand v = False"

fun splitCompoundCommand :: "jsval \<Rightarrow> jstring list" where
  "splitCompoundCommand (JStr s) =
     (if s = [] then []
      else filter (\<lambda>cmd. cmd \<noteq> [] \<and> length (trim cmd) > 0) (js_split SPLIT_PATTERN s))"
| "splitCompoundCommand v = []"

fun unwrapShellExecutor :: "jsval \<Rightarrow> jsval" where
  "unwrapShellExecutor (JStr s) =
     (if s = [] then JStr s
      else case match_group EXECUTOR_PRE EXECUTOR_GROUP EXECUTOR_POST (trim s) of
             Some inner \<Rightarrow> JStr inner
           | None \<Rightarrow> JStr s)"
| "unwrapShellExecutor v = v"

fun isVenvExecutable :: "jsval \<Rightarrow> bool" where
  "isVenvExecutable (JStr s) =
     (if s = [] then False else regex_test VENV_EXECUTABLE_PATTERN s)"
| "isVenvExecutable v = False"

fun isVenvCreationCommand :: "jsval \<Rightarrow> bool" where
  "isVenvCreationCommand (JStr s) =
     (if s = [] then False else regex_test VENV_CREATION_PATTERN (trim s))"
| "isVenvCreationCommand v = False"

definition isAllowedCommand :: "jsval \<Rightarrow> bool" where
  "isAllowedCommand command =
     (let stripped = stripCommandPrefix command
      in isBuildCommand stripped \<or> isVenvExecutable stripped \<or> isVenvCreationCommand stripped)"

section \<open>checkScoutBlock\<close>

text \<open>
  The modules \<open>scout-block/pattern-matcher.cjs\<close>, \<open>scout-block/path-extractor.cjs\<close> and
  \<open>scout-block/broad-pattern-detector.cjs\<close> that \<open>scout-checker.cjs\<close> requires are not
  among the sources, and neither are Node's \<open>path.join\<close> and \<open>process.cwd\<close>:
  \<open>checkScoutBlock\<close> takes them as parameters.
\<close>

record broad_result =
  broad_blocked :: bool
  broad_reason :: jsval
  broad_suggestions :: jsval

record match_result =
  match_blocked :: bool
  match_pattern :: jsval

record ('p, 'm) modules =
  detectBroadPatternIssue :: "jsval \<Rightarrow> broad_result"
  loadPatterns :: "jstring \<Rightarrow> 'p"
  createMatcher :: "'p \<Rightarrow> 'm"
  matchPath :: "'m \<Rightarrow> jstring \<Rightarrow> match_result"
  extractFromToolInput :: "jsval \<Rightarrow> jstring list"
  path_join :: "jstring \<Rightarrow> jstring \<Rightarrow> jstring"
  process_cwd :: jstring

record options =
  ckignorePath :: "jstring option"
  claudeDir :: "jstring option"
  checkBroadPatterns :: "bool option"

text \<open>
  The object \<open>checkScoutBlock\<close> returns: \<open>{blocked: false}\<close> with or without
  \<open>isAllowedCommand: true\<close>; the broad-pattern block with its pattern, reason and
  suggestions; the path block with its path and pattern (its \<open>reason\<close> is a message built
  from the pattern).
\<close>

datatype decision =
    Allowed bool
  | BlockedBroad jsval jsval jsval
  | BlockedPath jstring jsval

text \<open>The calls to the collaborating modules, in the order they are made.\<close>

datatype call =
    CallDetect jsval
  | CallLoad jstring
  | CallCreate
  | CallExtract jsval
  | CallMatch jstring

record outcome =
  verdict :: decision
  calls :: "call list"

datatype error = TypeError

text \<open>
  Reading a property.  Only \<open>command\<close>, \<open>pattern\<close>, \<open>tool_input\<close> and \<open>tool_name\<close> are
  ever read, which no string, number, boolean or array has; reading a property of \<open>null\<close>
  or \<open>undefined\<close> throws, which the callers of \<open>get_prop\<close> check first.
\<close>

fun get_prop :: "jsval \<Rightarrow> jstring \<Rightarrow> jsval" where
  "get_prop (JObj fs) k = (case map_of fs k of Some v \<Rightarrow> v | None \<Rightarrow> JUndef)"
| "get_prop v k = JUndef"

text \<open>
  \<open>{ ...toolInput, command: v }\<close>.  It is evaluated only where \<open>toolInput.command\<close> is
  truthy, that is on an object that has the property.
\<close>

fun set_command :: "jsval \<Rightarrow> jsval \<Rightarrow> jsval" where
  "set_command (JObj fs) v =
     JObj (if map_of fs (js ''command'') = None then fs @ [(js ''command'', v)]
           else map (\<lambda>(k, x). if k = js ''command'' then (k, v) else (k, x)) fs)"
| "set_command w v = JObj [(js ''command'', v)]"

fun join :: "jstring \<Rightarrow> jstring list \<Rightarrow> jstring" where
  "join sep [] = []"
| "join sep [x] = x"
| "join sep (x # xs) = x @ sep @ join sep xs"

text \<open>Lines 164 to 169: one level of shell-executor wrapping is removed.\<close>

definition unwrap_stage :: "jsval \<Rightarrow> jsval" where
  "unwrap_stage toolInput =
     (if truthy (get_prop toolInput (js ''command'')) then
        (let unwrapped = unwrapShellExecutor (get_prop toolInput (js ''command''))
         in if unwrapped \<noteq> get_prop toolInput (js ''command'')
            then set_command toolInput unwrapped else toolInput)
      else toolInput)"

definition nonAllowed :: "jstring list \<Rightarrow> jstring list" where
  "nonAllowed subCommands = filter (\<lambda>cmd. \<not> isAllowedCommand (JStr (trim cmd))) subCommands"

text \<open>
  Lines 176 to 186: \<open>None\<close> is the early return \<open>{ blocked: false, isAllowedCommand: true }\<close>,
  \<open>Some\<close> the tool input that the later checks see.
\<close>

definition narrow_stage :: "jsval \<Rightarrow> jsval option" where
  "narrow_stage toolInput =
     (if truthy (get_prop toolInput (js ''command'')) then
        (let subCommands = splitCompoundCommand (get_prop toolInput (js ''command''));
             na = nonAllowed subCommands
         in if length na = 0 then None
            else if length na < length subCommands
                 then Some (set_command toolInput (JStr (join (js '' ; '') na)))
                 else Some toolInput)
      else Some toolInput)"

text \<open>Lines 218 to 231: the first extracted path that the matcher blocks decides.\<close>

fun check_paths :: "('m \<Rightarrow> jstring \<Rightarrow> match_result) \<Rightarrow> 'm \<Rightarrow> jstring list \<Rightarrow> outcome" where
  "check_paths mp m [] = \<lparr>verdict = Allowed False, calls = []\<rparr>"
| "check_paths mp m (p # ps) =
     (let result = mp m p
      in if match_blocked result
         then \<lparr>verdict = BlockedPath p (match_pattern result), calls = [CallMatch p]\<rparr>
         else (let rest = check_paths mp m ps
               in rest\<lparr>calls := CallMatch p # calls rest\<rparr>))"

text \<open>Lines 156 to 160 and 203: the rule file that is read.\<close>

definition resolvedCkignorePath :: "('p, 'm) modules \<Rightarrow> options \<Rightarrow> jstring" where
  "resolvedCkignorePath M opts =
     (let dir = (case claudeDir opts of
                   None \<Rightarrow> path_join M (process_cwd M) (js ''.claude'')
                 | Some d \<Rightarrow> d)
      in case ckignorePath opts of
           None \<Rightarrow> path_join M dir (js ''.ckignore'')
         | Some f \<Rightarrow> if f = [] then path_join M dir (js ''.ckignore'') else f)"

definition the_matcher :: "('p, 'm) modules \<Rightarrow> options \<Rightarrow> 'm" where
  "the_matcher M opts = createMatcher M (loadPatterns M (resolvedCkignorePath M opts))"

text \<open>Lines 202 to 231.\<close>

definition path_stage :: "('p, 'm) modules \<Rightarrow> options \<Rightarrow> jsval \<Rightarrow> outcome" where
  "path_stage M opts toolInput =
     (let matcher = the_matcher M opts;
          extractedPaths = extractFromToolInput M toolInput;
          before = [CallLoad (resolvedCkignorePath M opts), CallCreate, CallExtract toolInput]
      in if length extractedPaths = 0 then \<lparr>verdict = Allowed False, calls = before\<rparr>
         else (let r = check_paths (matchPath M) matcher extractedPaths
               in r\<lparr>calls := before @ calls r\<rparr>))"

text \<open>Lines 188 to 200, followed by the path check.\<close>

definition broad_stage :: "('p, 'm) modules \<Rightarrow> options \<Rightarrow> jsval \<Rightarrow> jsval \<Rightarrow> outcome" where
  "broad_stage M opts toolName toolInput =
     (if (case checkBroadPatterns opts of None \<Rightarrow> True | Some b \<Rightarrow> b) \<and>
         (toolName = JStr (js ''Glob'') \<or> truthy (get_prop toolInput (js ''pattern'')))
      then
        (let broadResult = detectBroadPatternIssue M toolInput
         in if broad_blocked broadResult
            then \<lparr>verdict = BlockedBroad (get_prop toolInput (js ''pattern''))
                     (if truthy (broad_reason broadResult) then broad_reason broadResult
                      else JStr (js ''Pattern too broad - may fill context with too many files''))
                     (if truthy (broad_suggestions broadResult) then broad_suggestions broadResult
                      else JArr []),
                   calls = [CallDetect toolInput]\<rparr>
            else (let r = path_stage M opts toolInput
                  in r\<lparr>calls := CallDetect toolInput # calls r\<rparr>))
      else path_stage M opts toolInput)"

definition checkScoutBlock ::
  "('p, 'm) modules \<Rightarrow> jsval \<Rightarrow> jsval \<Rightarrow> options \<Rightarrow> error + outcome" where
  "checkScoutBlock M toolName toolInput opts =
     (if toolInput = JNull \<or> toolInput = JUndef then Inl TypeError
      else case narrow_stage (unwrap_stage toolInput) of
             None \<Rightarrow> Inr \<lparr>verdict = Allowed True, calls = []\<rparr>
           | Some narrowed \<Rightarrow> Inr (broad_stage M opts toolName narrowed))"

section \<open>The hook scout-block.cjs\<close>

text \<open>
  The hook reads its standard input and ends the process with an exit code: 0 lets the
  tool call through, 2 blocks it.  \<open>isHookEnabled\<close> (of \<open>lib/ck-config-utils.cjs\<close>, not
  among the sources), \<open>JSON.parse\<close> (\<open>None\<close> where it throws) and the directory above the
  hook's own are parameters; the error formatters only write the message.
\<close>

record ('p, 'm) host =
  hook_enabled :: bool
  json_parse :: "jstring \<Rightarrow> jsval option"
  hook_modules :: "('p, 'm) modules"
  hook_claudeDir :: jstring

fun typeof_object :: "jsval \<Rightarrow> bool" where
  "typeof_object JNull = True"
| "typeof_object (JArr xs) = True"
| "typeof_object (JObj fs) = True"
| "typeof_object v = False"

definition exit_of :: "outcome \<Rightarrow> nat" where
  "exit_of result =
     (case verdict result of
        Allowed flag \<Rightarrow> 0
      | BlockedBroad p r s \<Rightarrow> 2
      | BlockedPath p r \<Rightarrow> 2)"

definition scout_block :: "('p, 'm) host \<Rightarrow> jstring \<Rightarrow> nat" where
  "scout_block H hookInput =
     (if \<not> hook_enabled H then 0
      else if hookInput = [] \<or> length (trim hookInput) = 0 then 2
      else case json_parse H hookInput of
             None \<Rightarrow> 0
           | Some data \<Rightarrow>
               if data = JNull \<or> data = JUndef then 0
               else if \<not> truthy (get_prop data (js ''tool_input'')) \<or>
                       \<not> typeof_object (get_prop data (js ''tool_input'')) then 0
               else
                 (let toolInput = get_prop data (js ''tool_input'');
                      toolName = (if truthy (get_prop data (js ''tool_name''))
                                  then get_prop data (js ''tool_name'') else JStr (js ''unknown''));
                      dir = hook_claudeDir H
                  in case checkScoutBlock (hook_modules H) toolName toolInput
                            \<lparr>ckignorePath = Some (path_join (hook_modules H) dir (js ''.ckignore'')),
                             claudeDir = Some dir,
                             checkBroadPatterns = Some True\<rparr> of
                       Inl e \<Rightarrow> 0
                     | Inr result \<Rightarrow> exit_of result))"

section \<open>The pattern matcher\<close>

text \<open>
  Modelled from the spec: the pattern matcher \<open>scout-block/pattern-matcher.cjs\<close>
  (\<open>loadPatterns\<close>, \<open>createMatcher\<close>, \<open>matchPath\<close>) is not among the sources.  Following
  sections 4.1 and 6 of the specification: the rule resource is read line by line; blank
  lines and lines that start with \<open>#\<close> are not rules; a line that starts with \<open>!\<close> is a
  negation.  \<open>match\<close> evaluates the rules in file order; a plain rule that matches marks
  the path blocked and a negated rule that matches marks it allowed, so that the last
  matching rule decides.  Whether the glob of a rule matches a path is the parameter
  \<open>glob\<close>.
\<close>

record pattern_rule =
  rule_text :: jstring
  rule_negated :: bool
  rule_glob :: jstring

definition compile_line :: "jstring \<Rightarrow> pattern_rule option" where
  "compile_line line =
     (if trim line = [] then None
      else if hd line = 35 then None
      else if hd line = 33
           then Some \<lparr>rule_text = line, rule_negated = True, rule_glob = tl line\<rparr>
           else Some \<lparr>rule_text = line, rule_negated = False, rule_glob = line\<rparr>)"

definition compile :: "jstring list \<Rightarrow> pattern_rule list" where
  "compile lines = List.map_filter compile_line lines"

record spec_match =
  spec_blocked :: bool
  spec_rule :: "jstring option"

definition match_step :: "(jstring \<Rightarrow> jstring \<Rightarrow> bool) \<Rightarrow> jstring \<Rightarrow> spec_match \<Rightarrow> pattern_rule \<Rightarrow> spec_match" where
  "match_step glob path st r =
     (if glob (rule_glob r) path
      then (if rule_negated r then \<lparr>spec_blocked = False, spec_rule = None\<rparr>
            else \<lparr>spec_blocked = True, spec_rule = Some (rule_text r)\<rparr>)
      else st)"

definition match :: "(jstring \<Rightarrow> jstring \<Rightarrow> bool) \<Rightarrow> pattern_rule list \<Rightarrow> jstring \<Rightarrow> spec_match" where
  "match glob matcher path =
     foldl (match_step glob path) \<lparr>spec_blocked = False, spec_rule = None\<rparr> matcher"

section \<open>Sample collaborators\<close>

text \<open>
  Stand-ins for the modules that are parameters above, for running the guard on concrete
  inputs: a rule file holding the one rule \<open>**/etc/**\<close>, a matcher that blocks the paths
  with a directory \<open>etc\<close> in them, and an extractor that takes the words of the command
  that contain a slash.
\<close>

fun has_infix :: "jstring \<Rightarrow> jstring \<Rightarrow> bool" where
  "has_infix w [] = (w = [])"
| "has_infix w (c # cs) = (prefix w (c # cs) \<or> has_infix w cs)"

fun words_of :: "jstring \<Rightarrow> jstring \<Rightarrow> jstring list" where
  "words_of acc [] = (if acc = [] then [] else [acc])"
| "words_of acc (c # cs) =
     (if is_space c then (if acc = [] then words_of [] cs else acc # words_of [] cs)
      else words_of (acc @ [c]) cs)"

definition sample_extract :: "jsval \<Rightarrow> jstring list" where
  "sample_extract toolInput =
     (case get_prop toolInput (js ''command'') of
        JStr c \<Rightarrow> filter (\<lambda>w. 47 \<in> set w) (words_of [] c)
      | _ \<Rightarrow> [])"

definition sample_match :: "jstring list \<Rightarrow> jstring \<Rightarrow> match_result" where
  "sample_match rules path =
     (if rules \<noteq> [] \<and> has_infix (js ''/etc/'') path
      then \<lparr>match_blocked = True, match_pattern = JStr (hd rules)\<rparr>
      else \<lparr>match_blocked = False, match_pattern = JUndef\<rparr>)"

definition sample_modules :: "(jstring list, jstring list) modules" where
  "sample_modules =
     \<lparr>detectBroadPatternIssue =
        (\<lambda>toolInput. \<lparr>broad_blocked = False, broad_reason = JUndef, broad_suggestions = JUndef\<rparr>),
      loadPatterns = (\<lambda>file. [js ''**/etc/**'']),
      createMatcher = (\<lambda>patterns. patterns),
      matchPath = sample_match,
      extractFromToolInput = sample_extract,
      path_join = (\<lambda>a b. a @ js ''/'' @ b),
      process_cwd = js ''/work''\<rparr>"

definition sample_options :: options where
  "sample_options = \<lparr>ckignorePath = None, claudeDir = None, checkBroadPatterns = None\<rparr>"

definition bash_input :: "string \<Rightarrow> jsval" where
  "bash_input c = JObj [(js ''command'', JStr (js c))]"

definition sample_parse :: "jstring \<Rightarrow> jsval option" where
  "sample_parse text =
     (if text = js ''{}'' then Some (JObj [])
      else if text = js ''null'' then Some JNull
      else if text = js ''[]'' then Some (JArr [])
      else None)"

definition sample_host :: "(jstring list, jstring list) host" where
  "sample_host =
     \<lparr>hook_enabled = True,
      json_parse = sample_parse,
      hook_modules = sample_modules,
      hook_claudeDir = js ''/work/.claude''\<rparr>"

definition sample_glob :: "jstring \<Rightarrow> jstring \<Rightarrow> bool" where
  "sample_glob g path = prefix g path"

definition sample_lines :: "jstring list" where
  "sample_lines = [js ''# rules'', js ''secret'', [], js ''!secret/public'']"

section \<open>Notions used in the statements\<close>

text \<open>A pattern that matches no empty text.\<close>

fun consumes :: "rx \<Rightarrow> bool" where
  "consumes (Lit w) = (w \<noteq> [])"
| "consumes (Sat P) = True"
| "consumes Bol = False"
| "consumes Eol = False"
| "consumes (Seq r1 r2) = (consumes r1 \<or> consumes r2)"
| "consumes (Alt r1 r2) = (consumes r1 \<and> consumes r2)"
| "consumes (Star r) = False"
| "consumes (Opt r) = False"

definition fully_stripped :: "jsval \<Rightarrow> bool" where
  "fully_stripped v =
     (case v of
        JStr t \<Rightarrow> \<not> regex_test ENV_ASSIGN_PATTERN t \<and> \<not> regex_test WRAPPER_PATTERN t
      | _ \<Rightarrow> True)"

text \<open>
  The operator of \<open>&&\<close>, \<open>||\<close> and \<open>;\<close> that a text starts with, as its length, and
  what the separator pattern \<open>\s*(?:&&|\|\||;)\s*\<close> leaves of a text it matches at the start.
\<close>

definition operator_at :: "jstring \<Rightarrow> nat option" where
  "operator_at t =
     (if prefix (js ''&&'') t then Some 2
      else if prefix (js ''||'') t then Some 2
      else if prefix (js '';'') t then Some 1
      else None)"

definition separator_at :: "jstring \<Rightarrow> jstring option" where
  "separator_at s =
     (case operator_at (dropWhile is_space s) of
        None \<Rightarrow> None
      | Some k \<Rightarrow> Some (dropWhile is_space (drop k (dropWhile is_space s))))"

text \<open>A text in which no operator starts.\<close>

fun no_operator :: "jstring \<Rightarrow> bool" where
  "no_operator [] = True"
| "no_operator (c # cs) = (operator_at (c # cs) = None \<and> no_operator cs)"

text \<open>
  Reading a shell-executor invocation from left to right: the text after a run of at
  least one white space, after \<open>-c\<close>, after the executor (\<open>bash -c\<close>, \<open>sh -c\<close>,
  \<open>zsh -c\<close> or \<open>eval\<close>), and the opening quote with the text after it.
\<close>

definition after_spaces :: "jstring \<Rightarrow> jstring option" where
  "after_spaces t =
     (case t of [] \<Rightarrow> None | c # cs \<Rightarrow> if is_space c then Some (dropWhile is_space cs) else None)"

definition after_dash_c :: "jstring \<Rightarrow> jstring option" where
  "after_dash_c u =
     (case after_spaces u of
        None \<Rightarrow> None
      | Some v \<Rightarrow> if prefix (js ''-c'') v then Some (drop 2 v) else None)"

definition after_head :: "jstring \<Rightarrow> jstring option" where
  "after_head t =
     (if prefix (js ''bash'') t then after_dash_c (drop 4 t)
      else if prefix (js ''sh'') t then after_dash_c (drop 2 t)
      else if prefix (js ''zsh'') t then after_dash_c (drop 3 t)
      else if prefix (js ''eval'') t then Some (drop 4 t)
      else None)"

definition quoted_argument :: "jstring \<Rightarrow> (nat \<times> jstring) option" where
  "quoted_argument t =
     (case after_head t of
        None \<Rightarrow> None
      | Some u \<Rightarrow>
          (case after_spaces u of
             None \<Rightarrow> None
           | Some [] \<Rightarrow> None
           | Some (q # a) \<Rightarrow> if is_quote q then Some (q, a) else None))"

text \<open>
  The text between the opening quote and the last character, where that is a quote of
  either kind and the text between is not empty.
\<close>

definition executor_inner :: "jstring \<Rightarrow> jstring option" where
  "executor_inner t =
     (case quoted_argument t of
        None \<Rightarrow> None
      | Some (q, a) \<Rightarrow> if 2 \<le> length a \<and> is_quote (last a) then Some (butlast a) else None)"

text \<open>
  A single quoted string in the sense of the shell: the closing quote is the opening one
  and does not occur in between.
\<close>

definition single_quoted_inner :: "jstring \<Rightarrow> jstring option" where
  "single_quoted_inner t =
     (case quoted_argument t of
        None \<Rightarrow> None
      | Some (q, a) \<Rightarrow>
          if 2 \<le> length a \<and> last a = q \<and> q \<notin> set (butlast a) then Some (butlast a) else None)"

section \<open>Evaluation and general facts\<close>

lemmas eval_defs = js_def lit_def ws_def is_space_def non_space_def is_word_def is_dot_def
  is_quote_def is_sep_def is_word_or_dot_def trim_def regex_exec_def regex_test_def
  replace_empty_def match_group_def group_at_def js_split_def rmatch_eval
  BUILD_COMMAND_PATTERN_def TOOL_COMMAND_PATTERN_def VENV_EXECUTABLE_PATTERN_def
  VENV_CREATION_PATTERN_def ENV_ASSIGN_PATTERN_def WRAPPER_PATTERN_def SPLIT_PATTERN_def
  EXECUTOR_PRE_def EXECUTOR_GROUP_def EXECUTOR_POST_def isAllowedCommand_def

lemma rmatch_suffix: "b \<in> set (rmatch r n s) \<Longrightarrow> suffix b s"
proof (induction r n s arbitrary: b rule: rmatch.induct)
  case (1 w n s)
  then show ?case by (auto simp: rmatch.simps suffix_drop split: if_splits)
next
  case (2 P n s)
  then show ?case by (cases s) (auto simp: rmatch.simps suffix_Cons split: if_splits)
next
  case (3 n s)
  then show ?case by (auto simp: rmatch.simps split: if_splits)
next
  case (4 n s)
  then show ?case by (auto simp: rmatch.simps split: if_splits)
next
  case (5 r1 r2 n s)
  from 5(3) obtain a where a: "a \<in> set (rmatch r1 n s)" and b: "b \<in> set (rmatch r2 n a)"
    by (auto simp: rmatch.simps)
  from 5(1)[OF a] 5(2)[OF a b] show ?case by (rule suffix_order.trans[rotated])
next
  case (6 r1 r2 n s)
  then show ?case by (auto simp: rmatch.simps)
next
  case (7 r n s)
  from 7(3) have "b = s \<or> (\<exists>a \<in> set (rmatch r n s). length a < length s \<and> b \<in> set (rmatch (Star r) n a))"
    by (subst (asm) rmatch.simps) (auto split: if_splits)
  then show ?case
  proof
    assume "b = s" then show ?thesis by simp
  next
    assume "\<exists>a \<in> set (rmatch r n s). length a < length s \<and> b \<in> set (rmatch (Star r) n a)"
    then obtain a where a: "a \<in> set (rmatch r n s)" "length a < length s" "b \<in> set (rmatch (Star r) n a)"
      by blast
    from 7(2)[OF a] 7(1)[OF a(1)] show ?thesis by (rule suffix_order.trans)
  qed
next
  case (8 r n s)
  then show ?case by (auto simp: rmatch.simps)
qed

lemma rmatch_length: "b \<in> set (rmatch r n s) \<Longrightarrow> length b \<le> length s"
  by (drule rmatch_suffix) (rule suffix_length_le)

lemma map_of_replace_same:
  "map_of fs k = Some x \<Longrightarrow>
   map_of (map (\<lambda>(k', x). if k' = k then (k', v) else (k', x)) fs) k = Some v"
  by (induction fs) (auto split: if_splits)

lemma map_of_replace_other:
  "k \<noteq> c \<Longrightarrow> map_of (map (\<lambda>(k', x). if k' = c then (k', v) else (k', x)) fs) k = map_of fs k"
  by (induction fs) auto

lemma get_prop_set_command [simp]: "get_prop (set_command ti v) (js ''command'') = v"
proof (cases ti)
  case (JObj fs)
  show ?thesis
  proof (cases "map_of fs (js ''command'')")
    case None
    with JObj show ?thesis by (simp add: map_add_def)
  next
    case (Some x)
    with JObj show ?thesis by (simp add: map_of_replace_same)
  qed
qed simp_all

lemma get_prop_set_command_other:
  "k \<noteq> js ''command'' \<Longrightarrow> get_prop (set_command ti v) k = get_prop ti k"
proof (cases ti)
  case (JObj fs)
  assume k: "k \<noteq> js ''command''"
  show ?thesis
  proof (cases "map_of fs (js ''command'')")
    case None
    with JObj k show ?thesis by (simp add: map_add_def split: option.splits)
  next
    case (Some x)
    with JObj k show ?thesis by (simp add: map_of_replace_other)
  qed
qed simp_all

lemma get_prop_not_object:
  "truthy (get_prop ti k) \<Longrightarrow> ti \<noteq> JNull \<and> ti \<noteq> JUndef"
  by (cases ti) auto

lemma group_at_nonempty:
  assumes "g \<in> set (group_at pre (Seq (Sat P) r) post n s)"
  shows "g \<noteq> []"
proof -
  from assms obtain a b where b: "b \<in> set (rmatch (Seq (Sat P) r) n a)"
    and g: "g = take (length a - length b) a"
    by (auto simp: group_at_def split: if_splits)
  from b obtain c cs where a: "a = c # cs" and "b \<in> set (rmatch r n cs)"
    by (cases a) (auto simp: rmatch.simps split: if_splits)
  then have "length b \<le> length cs" by (simp add: rmatch_length)
  with a g show ?thesis by simp
qed

lemma group_at_hd_nonempty:
  "group_at pre (Seq (Sat P) r) post n s = g # gs \<Longrightarrow> g \<noteq> []"
  using group_at_nonempty [of g pre P r post n s] by simp

lemma search_group_nonempty:
  "search_group pre (Seq (Sat P) r) post n s = Some g \<Longrightarrow> g \<noteq> []"
proof (induction s)
  case Nil
  then show ?case
    by (cases "group_at pre (Seq (Sat P) r) post n []")
       (auto dest: group_at_hd_nonempty)
next
  case (Cons c cs)
  then show ?case
    by (cases "group_at pre (Seq (Sat P) r) post n (c # cs)")
       (auto dest: group_at_hd_nonempty)
qed

lemma unwrap_truthy: "truthy v \<Longrightarrow> truthy (unwrapShellExecutor v)"
proof (cases v)
  case (JStr s)
  assume "truthy v"
  with JStr show ?thesis
    by (auto simp: match_group_def EXECUTOR_GROUP_def split: option.splits
             dest: search_group_nonempty)
qed simp_all

lemma unwrap_stage_command:
  "truthy (get_prop ti (js ''command'')) \<Longrightarrow>
   get_prop (unwrap_stage ti) (js ''command'') = unwrapShellExecutor (get_prop ti (js ''command''))"
  by (simp add: unwrap_stage_def Let_def)

lemma unwrap_stage_other:
  "k \<noteq> js ''command'' \<Longrightarrow> get_prop (unwrap_stage ti) k = get_prop ti k"
  by (simp add: unwrap_stage_def Let_def get_prop_set_command_other)

lemma short_circuit:
  assumes "truthy (get_prop ti (js ''command''))"
    and "nonAllowed (splitCompoundCommand (unwrapShellExecutor (get_prop ti (js ''command'')))) = []"
  shows "checkScoutBlock M toolName ti opts = Inr \<lparr>verdict = Allowed True, calls = []\<rparr>"
proof -
  from assms(1) have nn: "ti \<noteq> JNull" "ti \<noteq> JUndef"
    using get_prop_not_object by blast+
  from assms(1) have "truthy (get_prop (unwrap_stage ti) (js ''command''))"
    by (simp add: unwrap_stage_command unwrap_truthy)
  with assms have "narrow_stage (unwrap_stage ti) = None"
    by (simp add: narrow_stage_def unwrap_stage_command Let_def)
  with nn show ?thesis by (simp add: checkScoutBlock_def)
qed

text \<open>
  C5: a command-shaped action whose command is truthy and whose every sub-command (after
  the shell-executor wrapping has been removed) classifies as allowed is answered with
  \<open>{ blocked: false, isAllowedCommand: true }\<close> at once: no collaborator is called, so
  there is no broad-pattern check, no rule loading and no path extraction.
\<close>

theorem all_allowed_returns_recognized_tooling:
  assumes "truthy (get_prop toolInput (js ''command''))"
    and "\<forall>cmd \<in> set (splitCompoundCommand (unwrapShellExecutor (get_prop toolInput (js ''command'')))).
           isAllowedCommand (JStr (trim cmd))"
  shows "checkScoutBlock M toolName toolInput opts = Inr \<lparr>verdict = Allowed True, calls = []\<rparr>"
  using assms by (intro short_circuit) (auto simp: nonAllowed_def filter_empty_conv)

theorem all_allowed_returns_recognized_tooling_witness:
  "truthy (get_prop (bash_input ''npm run build && npm test'') (js ''command'')) \<and>
   splitCompoundCommand (unwrapShellExecutor
       (get_prop (bash_input ''npm run build && npm test'') (js ''command''))) =
     [js ''npm run build'', js ''npm test''] \<and>
   isAllowedCommand (JStr (trim (js ''npm run build''))) \<and>
   isAllowedCommand (JStr (trim (js ''npm test''))) \<and>
   checkScoutBlock sample_modules (JStr (js ''Bash'')) (bash_input ''npm run build && npm test'')
     sample_options = Inr \<lparr>verdict = Allowed True, calls = []\<rparr>"
proof -
  have h1: "truthy (get_prop (bash_input ''npm run build && npm test'') (js ''command''))"
    by (simp add: bash_input_def js_def)
  have h2: "splitCompoundCommand (unwrapShellExecutor
       (get_prop (bash_input ''npm run build && npm test'') (js ''command''))) =
     [js ''npm run build'', js ''npm test'']"
    by (simp add: bash_input_def eval_defs)
  have h3: "isAllowedCommand (JStr (trim (js ''npm run build'')))"
    by (simp add: eval_defs)
  have h4: "isAllowedCommand (JStr (trim (js ''npm test'')))"
    by (simp add: eval_defs)
  have "checkScoutBlock sample_modules (JStr (js ''Bash''))
          (bash_input ''npm run build && npm test'') sample_options =
        Inr \<lparr>verdict = Allowed True, calls = []\<rparr>"
    by (rule all_allowed_returns_recognized_tooling [OF h1]) (simp add: h2 h3 h4)
  with h1 h2 h3 h4 show ?thesis by blast
qed

text \<open>
  C10, as amended: a command value that is truthy and splits into no sub-command at all
  (white space, operators only, a truthy value that is not a string) is answered with
  \<open>{ blocked: false, isAllowedCommand: true }\<close> and no collaborator is called.  The
  empty string is falsy: it skips the command handling of lines 164 to 186 and goes
  through the later checks.
\<close>

theorem no_sub_commands_returns_recognized_tooling:
  assumes "truthy (get_prop toolInput (js ''command''))"
    and "splitCompoundCommand (unwrapShellExecutor (get_prop toolInput (js ''command''))) = []"
  shows "checkScoutBlock M toolName toolInput opts = Inr \<lparr>verdict = Allowed True, calls = []\<rparr>"
  using assms by (intro short_circuit) (auto simp: nonAllowed_def)

theorem no_sub_commands_returns_recognized_tooling_witness:
  "truthy (get_prop (bash_input '' && ; || '') (js ''command'')) \<and>
   splitCompoundCommand (unwrapShellExecutor (get_prop (bash_input '' && ; || '') (js ''command''))) = [] \<and>
   checkScoutBlock sample_modules (JStr (js ''Bash'')) (bash_input '' && ; || '')
     sample_options = Inr \<lparr>verdict = Allowed True, calls = []\<rparr>"
proof -
  have h1: "truthy (get_prop (bash_input '' && ; || '') (js ''command''))"
    by (simp add: bash_input_def js_def)
  have h2: "splitCompoundCommand (unwrapShellExecutor (get_prop (bash_input '' && ; || '') (js ''command''))) = []"
    by (simp add: bash_input_def eval_defs)
  from no_sub_commands_returns_recognized_tooling [OF h1 h2] h1 h2 show ?thesis by blast
qed

text \<open>
  C10 as stated fails for the empty string: the guard \<open>if (toolInput.command)\<close> is not
  taken, the rules are loaded and the paths extracted, and the answer does not carry the
  recognized-tooling flag.
\<close>

theorem empty_command_counterexample:
  "splitCompoundCommand (get_prop (bash_input []) (js ''command'')) = [] \<and>
   checkScoutBlock sample_modules (JStr (js ''Bash'')) (bash_input []) sample_options =
     Inr \<lparr>verdict = Allowed False,
          calls = [CallLoad (js ''/work/.claude/.ckignore''), CallCreate,
                   CallExtract (bash_input [])]\<rparr>"
  by (simp add: bash_input_def js_def checkScoutBlock_def unwrap_stage_def narrow_stage_def
        broad_stage_def path_stage_def resolvedCkignorePath_def the_matcher_def
        sample_modules_def sample_options_def sample_extract_def)

section \<open>The guard and the hook\<close>

lemma check_paths_first_blocked:
  assumes "\<forall>q \<in> set ps. \<not> match_blocked (mp m q)" and "match_blocked (mp m p)"
  shows "check_paths mp m (ps @ p # qs) =
           \<lparr>verdict = BlockedPath p (match_pattern (mp m p)),
            calls = map CallMatch ps @ [CallMatch p]\<rparr>"
  using assms by (induction ps) (simp_all add: Let_def)

text \<open>
  C1: the command splits into an allowed sub-command \<open>a\<close> followed by a sub-command \<open>b\<close>
  that is not allowed; the action is command-shaped (it is not for the Glob tool and
  carries no pattern).  Then the paths are extracted from the tool input whose command is
  \<open>b\<close> alone, and the first of them that the matcher blocks is returned with the rule
  that decided, without a broad-pattern check.
\<close>

theorem trailing_sub_command_is_not_masked:
  assumes cmd: "truthy (get_prop toolInput (js ''command''))"
    and split: "splitCompoundCommand (unwrapShellExecutor (get_prop toolInput (js ''command''))) = [a, b]"
    and a: "isAllowedCommand (JStr (trim a))"
    and b: "\<not> isAllowedCommand (JStr (trim b))"
    and tool: "toolName \<noteq> JStr (js ''Glob'')"
    and pat: "\<not> truthy (get_prop toolInput (js ''pattern''))"
    and paths: "extractFromToolInput M (set_command (unwrap_stage toolInput) (JStr b)) = ps @ p # qs"
    and before: "\<forall>q \<in> set ps. \<not> match_blocked (matchPath M (the_matcher M opts) q)"
    and hit: "match_blocked (matchPath M (the_matcher M opts) p)"
  shows "checkScoutBlock M toolName toolInput opts =
           Inr \<lparr>verdict = BlockedPath p (match_pattern (matchPath M (the_matcher M opts) p)),
                calls = [CallLoad (resolvedCkignorePath M opts), CallCreate,
                         CallExtract (set_command (unwrap_stage toolInput) (JStr b))]
                        @ map CallMatch ps @ [CallMatch p]\<rparr>"
proof -
  let ?narrowed = "set_command (unwrap_stage toolInput) (JStr b)"
  from cmd have nn: "toolInput \<noteq> JNull" "toolInput \<noteq> JUndef"
    using get_prop_not_object by blast+
  from cmd have t: "truthy (get_prop (unwrap_stage toolInput) (js ''command''))"
    by (simp add: unwrap_stage_command unwrap_truthy)
  from a b split have na: "nonAllowed [a, b] = [b]"
    by (simp add: nonAllowed_def)
  from cmd t split na have narrow: "narrow_stage (unwrap_stage toolInput) = Some ?narrowed"
    by (simp add: narrow_stage_def unwrap_stage_command Let_def)
  have "js ''pattern'' \<noteq> js ''command''" by (simp add: js_def)
  then have "get_prop ?narrowed (js ''pattern'') = get_prop toolInput (js ''pattern'')"
    by (simp add: get_prop_set_command_other unwrap_stage_other)
  with tool pat have "broad_stage M opts toolName ?narrowed = path_stage M opts ?narrowed"
    by (simp add: broad_stage_def)
  also have "\<dots> = \<lparr>verdict = BlockedPath p (match_pattern (matchPath M (the_matcher M opts) p)),
                calls = [CallLoad (resolvedCkignorePath M opts), CallCreate, CallExtract ?narrowed]
                        @ map CallMatch ps @ [CallMatch p]\<rparr>"
    using paths check_paths_first_blocked [where mp = "matchPath M" and m = "the_matcher M opts" and qs = qs, OF before hit]
    by (simp add: path_stage_def Let_def)
  finally show ?thesis using nn narrow by (simp add: checkScoutBlock_def)
qed

theorem trailing_sub_command_is_not_masked_witness:
  "splitCompoundCommand (unwrapShellExecutor
       (get_prop (bash_input ''npm run build && cat ../../etc/secrets'') (js ''command''))) =
     [js ''npm run build'', js ''cat ../../etc/secrets''] \<and>
   isAllowedCommand (JStr (trim (js ''npm run build''))) \<and>
   \<not> isAllowedCommand (JStr (trim (js ''cat ../../etc/secrets''))) \<and>
   checkScoutBlock sample_modules (JStr (js ''Bash''))
       (bash_input ''npm run build && cat ../../etc/secrets'') sample_options =
     Inr \<lparr>verdict = BlockedPath (js ''../../etc/secrets'') (JStr (js ''**/etc/**'')),
          calls = [CallLoad (js ''/work/.claude/.ckignore''), CallCreate,
                   CallExtract (bash_input ''cat ../../etc/secrets''),
                   CallMatch (js ''../../etc/secrets'')]\<rparr>"
proof -
  let ?ti = "bash_input ''npm run build && cat ../../etc/secrets''"
  have h1: "truthy (get_prop ?ti (js ''command''))"
    by (simp add: bash_input_def js_def)
  have h2: "splitCompoundCommand (unwrapShellExecutor (get_prop ?ti (js ''command''))) =
              [js ''npm run build'', js ''cat ../../etc/secrets'']"
    by (simp add: bash_input_def eval_defs)
  have h3: "isAllowedCommand (JStr (trim (js ''npm run build'')))"
    by (simp add: eval_defs)
  have h4: "\<not> isAllowedCommand (JStr (trim (js ''cat ../../etc/secrets'')))"
    by (simp add: eval_defs)
  have h5: "JStr (js ''Bash'') \<noteq> JStr (js ''Glob'')" by (simp add: js_def)
  have h6: "\<not> truthy (get_prop ?ti (js ''pattern''))"
    by (simp add: bash_input_def js_def)
  have u: "unwrap_stage ?ti = ?ti"
    by (simp add: unwrap_stage_def bash_input_def eval_defs)
  have n: "set_command ?ti (JStr (js ''cat ../../etc/secrets'')) = bash_input ''cat ../../etc/secrets''"
    by (simp add: bash_input_def js_def)
  have h7: "extractFromToolInput sample_modules
              (set_command (unwrap_stage ?ti) (JStr (js ''cat ../../etc/secrets''))) =
            [] @ js ''../../etc/secrets'' # []"
    unfolding u n by (simp add: sample_modules_def sample_extract_def bash_input_def js_def is_space_def)
  have h8: "\<forall>q \<in> set []. \<not> match_blocked (matchPath sample_modules (the_matcher sample_modules sample_options) q)"
    by simp
  have m: "matchPath sample_modules (the_matcher sample_modules sample_options) (js ''../../etc/secrets'') =
           \<lparr>match_blocked = True, match_pattern = JStr (js ''**/etc/**'')\<rparr>"
    by (simp add: sample_modules_def the_matcher_def sample_match_def js_def)
  have h9: "match_blocked (matchPath sample_modules (the_matcher sample_modules sample_options) (js ''../../etc/secrets''))"
    by (simp add: m)
  have r: "resolvedCkignorePath sample_modules sample_options = js ''/work/.claude/.ckignore''"
    by (simp add: resolvedCkignorePath_def sample_modules_def sample_options_def js_def)
  from trailing_sub_command_is_not_masked [OF h1 h2 h3 h4 h5 h6 h7 h8 h9]
  have "checkScoutBlock sample_modules (JStr (js ''Bash'')) ?ti sample_options =
     Inr \<lparr>verdict = BlockedPath (js ''../../etc/secrets'') (JStr (js ''**/etc/**'')),
          calls = [CallLoad (js ''/work/.claude/.ckignore''), CallCreate,
                   CallExtract (bash_input ''cat ../../etc/secrets''),
                   CallMatch (js ''../../etc/secrets'')]\<rparr>"
    unfolding u n m r by simp
  with h2 h3 h4 show ?thesis by blast
qed

text \<open>
  C2, as amended: input that is not blank and either is not JSON or is JSON without a
  \<open>tool_input\<close> object (or array) ends with exit code 0; blank input is answered by the
  explicit check of line 175 with exit code 2.
\<close>

theorem malformed_input_exit_codes:
  "(hook_enabled H \<longrightarrow> trim hookInput = [] \<longrightarrow> scout_block H hookInput = 2) \<and>
   (trim hookInput \<noteq> [] \<longrightarrow> json_parse H hookInput = None \<longrightarrow> scout_block H hookInput = 0) \<and>
   (trim hookInput \<noteq> [] \<longrightarrow> json_parse H hookInput = Some data \<longrightarrow>
      (\<forall>fs. get_prop data (js ''tool_input'') \<noteq> JObj fs) \<longrightarrow>
      (\<forall>xs. get_prop data (js ''tool_input'') \<noteq> JArr xs) \<longrightarrow>
      scout_block H hookInput = 0)"
proof (intro conjI impI)
  assume "hook_enabled H" "trim hookInput = []"
  then show "scout_block H hookInput = 2" by (simp add: scout_block_def)
next
  assume "trim hookInput \<noteq> []" "json_parse H hookInput = None"
  then show "scout_block H hookInput = 0" by (auto simp: scout_block_def trim_def)
next
  assume 1: "trim hookInput \<noteq> []" "json_parse H hookInput = Some data"
    and 2: "\<forall>fs. get_prop data (js ''tool_input'') \<noteq> JObj fs"
           "\<forall>xs. get_prop data (js ''tool_input'') \<noteq> JArr xs"
  from 2 have "\<not> truthy (get_prop data (js ''tool_input'')) \<or>
               \<not> typeof_object (get_prop data (js ''tool_input''))"
    by (cases "get_prop data (js ''tool_input'')") auto
  with 1 show "scout_block H hookInput = 0" by (auto simp: scout_block_def trim_def)
qed

theorem malformed_input_exit_codes_witness:
  "scout_block sample_host (js ''  '') = 2 \<and>
   scout_block sample_host (js ''npm test'') = 0 \<and>
   scout_block sample_host (js ''{}'') = 0"
proof -
  have e: "hook_enabled sample_host" by (simp add: sample_host_def)
  have b: "trim (js ''  '') = []" by (simp add: eval_defs)
  have t1: "trim (js ''npm test'') \<noteq> []" by (simp add: eval_defs)
  have p1: "json_parse sample_host (js ''npm test'') = None"
    by (simp add: sample_host_def sample_parse_def js_def)
  have t2: "trim (js ''{}'') \<noteq> []" by (simp add: eval_defs)
  have p2: "json_parse sample_host (js ''{}'') = Some (JObj [])"
    by (simp add: sample_host_def sample_parse_def js_def)
  have o: "\<forall>fs. get_prop (JObj []) (js ''tool_input'') \<noteq> JObj fs"
          "\<forall>xs. get_prop (JObj []) (js ''tool_input'') \<noteq> JArr xs"
    by simp_all
  from malformed_input_exit_codes [where H = sample_host and hookInput = "js ''  ''"] e b
  have 1: "scout_block sample_host (js ''  '') = 2" by blast
  from malformed_input_exit_codes [where H = sample_host and hookInput = "js ''npm test''"] t1 p1
  have 2: "scout_block sample_host (js ''npm test'') = 0" by blast
  from malformed_input_exit_codes [where H = sample_host and hookInput = "js ''{}''" and data = "JObj []"] t2 p2 o
  have 3: "scout_block sample_host (js ''{}'') = 0" by blast
  from 1 2 3 show ?thesis by blast
qed

text \<open>C2 as stated fails for empty input: the hook ends with exit code 2.\<close>

theorem empty_input_counterexample:
  "hook_enabled sample_host \<and> scout_block sample_host [] = 2"
  by (simp add: sample_host_def scout_block_def)

lemma match_snoc:
  "match glob (R @ [r]) path = match_step glob path (match glob R path) r"
  by (simp add: match_def)

lemma match_last_matching:
  "match glob R path =
     (case filter (\<lambda>r. glob (rule_glob r) path) R of
        [] \<Rightarrow> \<lparr>spec_blocked = False, spec_rule = None\<rparr>
      | m # ms \<Rightarrow>
          if rule_negated (last (m # ms)) then \<lparr>spec_blocked = False, spec_rule = None\<rparr>
          else \<lparr>spec_blocked = True, spec_rule = Some (rule_text (last (m # ms)))\<rparr>)"
proof (induction R rule: rev_induct)
  case Nil
  show ?case by (simp add: match_def)
next
  case (snoc r R)
  show ?case
  proof (cases "glob (rule_glob r) path")
    case True
    then show ?thesis
      by (cases "filter (\<lambda>r. glob (rule_glob r) path) R")
         (simp_all add: match_snoc match_step_def)
  next
    case False
    with snoc show ?thesis by (simp add: match_snoc match_step_def)
  qed
qed

text \<open>
  C6: with \<open>ms\<close> the rules compiled from the lines that match the path, in file order:
  no matching rule means not blocked; a negation as the last matching rule means not
  blocked; a plain rule as the last matching rule means blocked, by that rule.
\<close>

theorem last_matching_rule_decides:
  "(filter (\<lambda>r. glob (rule_glob r) path) (compile lines) = [] \<longrightarrow>
      \<not> spec_blocked (match glob (compile lines) path)) \<and>
   (filter (\<lambda>r. glob (rule_glob r) path) (compile lines) \<noteq> [] \<longrightarrow>
    rule_negated (last (filter (\<lambda>r. glob (rule_glob r) path) (compile lines))) \<longrightarrow>
      \<not> spec_blocked (match glob (compile lines) path)) \<and>
   (filter (\<lambda>r. glob (rule_glob r) path) (compile lines) \<noteq> [] \<longrightarrow>
    \<not> rule_negated (last (filter (\<lambda>r. glob (rule_glob r) path) (compile lines))) \<longrightarrow>
      spec_blocked (match glob (compile lines) path) \<and>
      spec_rule (match glob (compile lines) path) =
        Some (rule_text (last (filter (\<lambda>r. glob (rule_glob r) path) (compile lines)))))"
  by (cases "filter (\<lambda>r. glob (rule_glob r) path) (compile lines)")
     (simp_all add: match_last_matching [of glob "compile lines" path])

lemma compile_sample_lines:
  "compile sample_lines =
     [\<lparr>rule_text = js ''secret'', rule_negated = False, rule_glob = js ''secret''\<rparr>,
      \<lparr>rule_text = js ''!secret/public'', rule_negated = True, rule_glob = js ''secret/public''\<rparr>]"
  by (simp add: compile_def sample_lines_def List.map_filter_simps compile_line_def js_def
        trim_def is_space_def)

theorem last_matching_rule_decides_witness:
  "\<not> spec_blocked (match sample_glob (compile sample_lines) (js ''src/a'')) \<and>
   \<not> spec_blocked (match sample_glob (compile sample_lines) (js ''secret/public/a'')) \<and>
   spec_blocked (match sample_glob (compile sample_lines) (js ''secret/a'')) \<and>
   spec_rule (match sample_glob (compile sample_lines) (js ''secret/a'')) = Some (js ''secret'')"
proof -
  have 1: "filter (\<lambda>r. sample_glob (rule_glob r) (js ''src/a'')) (compile sample_lines) = []"
    by (simp add: compile_sample_lines sample_glob_def js_def)
  have 2: "filter (\<lambda>r. sample_glob (rule_glob r) (js ''secret/public/a'')) (compile sample_lines) =
             compile sample_lines"
    by (simp add: compile_sample_lines sample_glob_def js_def)
  have 3: "filter (\<lambda>r. sample_glob (rule_glob r) (js ''secret/a'')) (compile sample_lines) =
             [\<lparr>rule_text = js ''secret'', rule_negated = False, rule_glob = js ''secret''\<rparr>]"
    by (simp add: compile_sample_lines sample_glob_def js_def)
  from last_matching_rule_decides [where glob = sample_glob and lines = sample_lines
      and path = "js ''src/a''"] 1
  have a: "\<not> spec_blocked (match sample_glob (compile sample_lines) (js ''src/a''))"
    by simp
  from last_matching_rule_decides [where glob = sample_glob and lines = sample_lines
      and path = "js ''secret/public/a''"] 2
  have b: "\<not> spec_blocked (match sample_glob (compile sample_lines) (js ''secret/public/a''))"
    by (simp add: compile_sample_lines)
  from last_matching_rule_decides [where glob = sample_glob and lines = sample_lines
      and path = "js ''secret/a''"] 3
  have c: "spec_blocked (match sample_glob (compile sample_lines) (js ''secret/a'')) \<and>
           spec_rule (match sample_glob (compile sample_lines) (js ''secret/a'')) = Some (js ''secret'')"
    by simp
  from a b c show ?thesis by blast
qed

section \<open>Facts about the matcher\<close>

lemma rmatch_Seq_mem:
  "b \<in> set (rmatch (Seq r1 r2) n s) \<longleftrightarrow> (\<exists>a \<in> set (rmatch r1 n s). b \<in> set (rmatch r2 n a))"
  by (auto simp: rmatch.simps)

lemma rmatch_Alt_mem:
  "b \<in> set (rmatch (Alt r1 r2) n s) \<longleftrightarrow> b \<in> set (rmatch r1 n s) \<or> b \<in> set (rmatch r2 n s)"
  by (auto simp: rmatch.simps)

lemma rmatch_consumes:
  "consumes r \<Longrightarrow> b \<in> set (rmatch r n s) \<Longrightarrow> length b < length s"
proof (induction r arbitrary: b s)
  case (Lit w)
  then show ?case by (cases w) (auto simp: rmatch.simps prefix_def split: if_splits)
next
  case (Sat P)
  then show ?case by (cases s) (auto simp: rmatch.simps split: if_splits)
next
  case (Seq r1 r2)
  from Seq.prems(2) obtain a where a: "a \<in> set (rmatch r1 n s)" "b \<in> set (rmatch r2 n a)"
    by (auto simp: rmatch_Seq_mem)
  from Seq.prems(1) have "consumes r1 \<or> consumes r2" by simp
  then show ?case
  proof
    assume "consumes r1"
    from Seq.IH(1)[OF this a(1)] rmatch_length[OF a(2)] show ?thesis by simp
  next
    assume "consumes r2"
    from Seq.IH(2)[OF this a(2)] rmatch_length[OF a(1)] show ?thesis by simp
  qed
next
  case (Alt r1 r2)
  then show ?case by (auto simp: rmatch_Alt_mem)
qed simp_all

lemma concat_map_concat:
  "concat (map f (concat xss)) = concat (map (\<lambda>xs. concat (map f xs)) xss)"
  by (induction xss) simp_all

lemma rmatch_Seq_assoc:
  "rmatch (Seq (Seq a b) c) n s = rmatch (Seq a (Seq b c)) n s"
proof -
  have "rmatch (Seq b c) n = (\<lambda>x. concat (map (rmatch c n) (rmatch b n x)))"
    by (rule ext) (simp add: rmatch.simps(5))
  then show ?thesis
    by (simp add: rmatch.simps(5) concat_map_concat comp_def)
qed

lemma rmatch_Star_Sat:
  "rmatch (Star (Sat P)) n s =
     (case s of [] \<Rightarrow> [[]] | c # cs \<Rightarrow> if P c then rmatch (Star (Sat P)) n cs @ [s] else [s])"
  by (subst rmatch.simps) (simp add: rmatch.simps(2) split: list.splits)

lemma rmatch_Star_Sat_hd:
  "\<exists>rest. rmatch (Star (Sat P)) n s = dropWhile P s # rest"
proof (induction s)
  case Nil
  show ?case by (subst rmatch_Star_Sat) simp
next
  case (Cons c cs)
  then obtain rest where "rmatch (Star (Sat P)) n cs = dropWhile P cs # rest" by blast
  then show ?case by (subst rmatch_Star_Sat) simp
qed

text \<open>
  Where the pattern that follows \<open>P*\<close> cannot start with a \<open>P\<close>, backtracking into the
  repetition never helps: only the longest run leads on.
\<close>

lemma Seq_Star_Sat_skip:
  assumes "\<And>c cs. P c \<Longrightarrow> rmatch r n (c # cs) = []"
  shows "rmatch (Seq (Star (Sat P)) r) n s = rmatch r n (dropWhile P s)"
proof (induction s)
  case Nil
  show ?case by (simp add: rmatch.simps(5) rmatch_Star_Sat)
next
  case (Cons c cs)
  from Cons have ih: "concat (map (rmatch r n) (rmatch (Star (Sat P)) n cs)) = rmatch r n (dropWhile P cs)"
    by (simp add: rmatch.simps(5))
  show ?case
    by (simp add: rmatch.simps(5) rmatch_Star_Sat [of P n "c # cs"] ih assms)
qed

lemma Seq_Many1_Sat_skip:
  assumes "\<And>c cs. P c \<Longrightarrow> rmatch r n (c # cs) = []"
  shows "rmatch (Seq (Many1 (Sat P)) r) n s =
           (case s of [] \<Rightarrow> [] | c # cs \<Rightarrow> if P c then rmatch r n (dropWhile P cs) else [])"
proof -
  have "rmatch (Seq (Many1 (Sat P)) r) n s = rmatch (Seq (Sat P) (Seq (Star (Sat P)) r)) n s"
    by (rule rmatch_Seq_assoc)
  also have "\<dots> = concat (map (\<lambda>t. rmatch r n (dropWhile P t)) (rmatch (Sat P) n s))"
  proof -
    have "rmatch (Seq (Star (Sat P)) r) n = (\<lambda>t. rmatch r n (dropWhile P t))"
      by (rule ext) (rule Seq_Star_Sat_skip [OF assms])
    then show ?thesis by (simp add: rmatch.simps(5))
  qed
  also have "\<dots> = (case s of [] \<Rightarrow> [] | c # cs \<Rightarrow> if P c then rmatch r n (dropWhile P cs) else [])"
    by (simp add: rmatch.simps(2) split: list.splits)
  finally show ?thesis .
qed

lemma rmatch_Bol_later: "length s \<noteq> n \<Longrightarrow> rmatch (Seq Bol r) n s = []"
  by (simp add: rmatch.simps)

lemma rmatch_Bol_start: "rmatch (Seq Bol r) (length s) s = rmatch r (length s) s"
  by (simp add: rmatch.simps)

lemma search_anchored_later:
  "length s < n \<Longrightarrow> search (Seq Bol r) n pre s = None"
  by (induction s arbitrary: pre) (simp_all add: rmatch_Bol_later)

lemma regex_exec_anchored:
  "regex_exec (Seq Bol r) s =
     (case rmatch r (length s) s of [] \<Rightarrow> None | e # _ \<Rightarrow> Some ([], e))"
proof (cases s)
  case Nil
  then show ?thesis by (simp add: regex_exec_def rmatch.simps(3,5))
next
  case (Cons c cs)
  then show ?thesis
    using search_anchored_later [of cs "length s" r "[c]"] rmatch_Bol_start [of r s]
    by (simp add: regex_exec_def split: list.splits)
qed

lemma regex_test_anchored:
  "regex_test (Seq Bol r) s \<longleftrightarrow> rmatch r (length s) s \<noteq> []"
  by (simp add: regex_test_def regex_exec_anchored split: list.splits)

lemma replace_empty_anchored:
  "replace_empty (Seq Bol r) s = (case rmatch r (length s) s of [] \<Rightarrow> s | e # _ \<Rightarrow> e)"
  by (simp add: replace_empty_def regex_exec_anchored split: list.splits)

lemma replace_empty_anchored_le:
  "length (replace_empty (Seq Bol r) s) \<le> length s"
proof (cases "rmatch r (length s) s")
  case Nil
  then show ?thesis by (simp add: replace_empty_anchored)
next
  case (Cons e es)
  then have "e \<in> set (rmatch r (length s) s)" by simp
  from rmatch_length [OF this] Cons show ?thesis by (simp add: replace_empty_anchored)
qed

lemma replace_empty_anchored_less:
  assumes "consumes r" and "regex_test (Seq Bol r) s"
  shows "length (replace_empty (Seq Bol r) s) < length s"
proof (cases "rmatch r (length s) s")
  case Nil
  with assms(2) show ?thesis by (simp add: regex_test_anchored)
next
  case (Cons e es)
  then have "e \<in> set (rmatch r (length s) s)" by simp
  from rmatch_consumes [OF assms(1) this] Cons show ?thesis by (simp add: replace_empty_anchored)
qed

lemma replace_empty_no_match: "\<not> regex_test r s \<Longrightarrow> replace_empty r s = s"
  by (cases "regex_exec r s") (auto simp: regex_test_def replace_empty_def)

section \<open>Facts about trim\<close>

lemma trim_length: "length (trim s) \<le> length s"
proof -
  have "length (trim s) \<le> length (dropWhile is_space s)"
    unfolding trim_def using length_dropWhile_le [of is_space "rev (dropWhile is_space s)"] by simp
  also have "\<dots> \<le> length s" by (rule length_dropWhile_le)
  finally show ?thesis .
qed

lemma trim_no_leading: "trim s \<noteq> [] \<Longrightarrow> \<not> is_space (hd (trim s))"
proof -
  assume ne: "trim s \<noteq> []"
  let ?d = "dropWhile is_space s"
  have t: "trim s = rev (dropWhile is_space (rev ?d))" by (simp add: trim_def)
  have dne: "?d \<noteq> []"
  proof
    assume a: "?d = []"
    have "trim s = []" unfolding trim_def a by simp
    with ne show False by simp
  qed
  then have h: "\<not> is_space (hd ?d)" by (rule hd_dropWhile)
  have "dropWhile is_space (rev ?d) = rev (trim s)" by (simp add: t)
  then have "\<exists>ys. rev ?d = ys @ rev (trim s)"
    by (metis takeWhile_dropWhile_id)
  then obtain ys where "rev ?d = ys @ rev (trim s)" by blast
  then have "?d = trim s @ rev ys" by (metis rev_append rev_rev_ident)
  with ne have "hd ?d = hd (trim s)" by simp
  with h show ?thesis by simp
qed

lemma trim_no_trailing: "trim s \<noteq> [] \<Longrightarrow> \<not> is_space (last (trim s))"
proof -
  assume ne: "trim s \<noteq> []"
  let ?r = "dropWhile is_space (rev (dropWhile is_space s))"
  from ne have "?r \<noteq> []" by (simp add: trim_def)
  then have "\<not> is_space (hd ?r)" by (rule hd_dropWhile)
  moreover have "last (trim s) = hd ?r" using \<open>?r \<noteq> []\<close> by (simp add: trim_def last_rev)
  ultimately show ?thesis by simp
qed

lemma dropWhile_id_hd: "xs = [] \<or> \<not> P (hd xs) \<Longrightarrow> dropWhile P xs = xs"
  by (cases xs) auto

lemma trim_id:
  assumes "s = [] \<or> (\<not> is_space (hd s) \<and> \<not> is_space (last s))"
  shows "trim s = s"
proof (cases s)
  case Nil
  then show ?thesis by (simp add: trim_def)
next
  case (Cons c cs)
  with assms have h: "\<not> is_space c" and l: "\<not> is_space (last s)" by auto
  from h Cons have d: "dropWhile is_space s = s" by simp
  have "hd (rev s) = last s" by (rule hd_rev)
  with l have "dropWhile is_space (rev s) = rev s"
    by (intro dropWhile_id_hd) simp
  with d show ?thesis by (simp add: trim_def)
qed

lemma trim_trim [simp]: "trim (trim s) = trim s"
  by (rule trim_id) (use trim_no_leading trim_no_trailing in blast)

section \<open>stripCommandPrefix\<close>

lemma ENV_ASSIGN_PATTERN_less:
  "regex_test ENV_ASSIGN_PATTERN s \<Longrightarrow> length (replace_empty ENV_ASSIGN_PATTERN s) < length s"
  unfolding ENV_ASSIGN_PATTERN_def
  by (rule replace_empty_anchored_less) (simp_all add: lit_def js_def)

lemma WRAPPER_PATTERN_less:
  "regex_test WRAPPER_PATTERN s \<Longrightarrow> length (replace_empty WRAPPER_PATTERN s) < length s"
  unfolding WRAPPER_PATTERN_def seqs.simps
  by (rule replace_empty_anchored_less) (simp_all add: ws_def)

lemma ENV_ASSIGN_PATTERN_le: "length (replace_empty ENV_ASSIGN_PATTERN s) \<le> length s"
  unfolding ENV_ASSIGN_PATTERN_def by (rule replace_empty_anchored_le)

lemma WRAPPER_PATTERN_le: "length (replace_empty WRAPPER_PATTERN s) \<le> length s"
  unfolding WRAPPER_PATTERN_def seqs.simps by (rule replace_empty_anchored_le)

lemma not_fully_stripped_shorter:
  assumes "\<not> fully_stripped (JStr t)"
  shows "length (trim (replace_empty ENV_ASSIGN_PATTERN (replace_empty WRAPPER_PATTERN
           (replace_empty ENV_ASSIGN_PATTERN t)))) < length t"
proof -
  let ?e1 = "replace_empty ENV_ASSIGN_PATTERN t"
  let ?w = "replace_empty WRAPPER_PATTERN ?e1"
  let ?e2 = "replace_empty ENV_ASSIGN_PATTERN ?w"
  have 1: "length (trim ?e2) \<le> length ?w"
    using trim_length [of ?e2] ENV_ASSIGN_PATTERN_le [of ?w] by simp
  have 2: "length ?w \<le> length ?e1" by (rule WRAPPER_PATTERN_le)
  show ?thesis
  proof (cases "regex_test ENV_ASSIGN_PATTERN t")
    case True
    from ENV_ASSIGN_PATTERN_less [OF this] 1 2 show ?thesis by simp
  next
    case False
    then have e1: "?e1 = t" by (rule replace_empty_no_match)
    from False assms have "regex_test WRAPPER_PATTERN t" by (simp add: fully_stripped_def)
    from WRAPPER_PATTERN_less [OF this] 1 e1 show ?thesis by simp
  qed
qed

lemma fully_stripped_empty: "fully_stripped (JStr [])"
  by (simp add: fully_stripped_def eval_defs)

lemma strip_fully_stripped:
  assumes "fully_stripped (JStr t)" and "trim t = t"
  shows "stripCommandPrefix (JStr t) = JStr t"
proof -
  from assms(1) have "replace_empty ENV_ASSIGN_PATTERN t = t" "replace_empty WRAPPER_PATTERN t = t"
    by (simp_all add: fully_stripped_def replace_empty_no_match)
  with assms(2) show ?thesis by simp
qed

text \<open>
  C3, as amended: \<open>normalize(normalize(c)) == normalize(c)\<close> holds exactly for the commands
  whose normal form begins with neither an environment assignment nor a wrapper; one
  wrapper is stripped per call.
\<close>

theorem normalize_idempotent_iff_fully_stripped:
  "stripCommandPrefix (stripCommandPrefix v) = stripCommandPrefix v \<longleftrightarrow>
   fully_stripped (stripCommandPrefix v)"
proof (cases v)
  case (JStr s)
  show ?thesis
  proof (cases "s = []")
    case True
    with JStr show ?thesis by (simp add: fully_stripped_empty)
  next
    case False
    define t where "t = trim (replace_empty ENV_ASSIGN_PATTERN (replace_empty WRAPPER_PATTERN
           (replace_empty ENV_ASSIGN_PATTERN (trim s))))"
    from False JStr have v: "stripCommandPrefix v = JStr t" by (simp add: t_def)
    have tt: "trim t = t" by (simp add: t_def)
    show ?thesis
    proof (cases "fully_stripped (JStr t)")
      case True
      from strip_fully_stripped [OF True tt]
      have "stripCommandPrefix (stripCommandPrefix v) = stripCommandPrefix v"
        unfolding v .
      moreover from True have "fully_stripped (stripCommandPrefix v)"
        unfolding v .
      ultimately show ?thesis by blast
    next
      case stripped: False
      then have "t \<noteq> []" using fully_stripped_empty by auto
      moreover from not_fully_stripped_shorter [OF stripped]
      have "trim (replace_empty ENV_ASSIGN_PATTERN (replace_empty WRAPPER_PATTERN
           (replace_empty ENV_ASSIGN_PATTERN t))) \<noteq> t" by auto
      ultimately have "stripCommandPrefix (JStr t) \<noteq> JStr t" by (simp add: tt)
      with stripped v show ?thesis by simp
    qed
  qed
qed (simp_all add: fully_stripped_def)

theorem normalize_idempotent_iff_fully_stripped_witness:
  "fully_stripped (stripCommandPrefix (JStr (js ''NODE_ENV=production npm run build''))) \<and>
   stripCommandPrefix (stripCommandPrefix (JStr (js ''NODE_ENV=production npm run build''))) =
     stripCommandPrefix (JStr (js ''NODE_ENV=production npm run build''))"
proof -
  have s: "stripCommandPrefix (JStr (js ''NODE_ENV=production npm run build'')) = JStr (js ''npm run build'')"
    by (simp add: eval_defs)
  have f: "fully_stripped (stripCommandPrefix (JStr (js ''NODE_ENV=production npm run build'')))"
    unfolding s by (simp add: fully_stripped_def eval_defs)
  with normalize_idempotent_iff_fully_stripped [of "JStr (js ''NODE_ENV=production npm run build'')"]
  show ?thesis by blast
qed

text \<open>C3 as stated fails where a wrapper is followed by another wrapper.\<close>

theorem normalize_not_idempotent_counterexample:
  "stripCommandPrefix (JStr (js ''sudo sudo ls'')) = JStr (js ''sudo ls'') \<and>
   stripCommandPrefix (stripCommandPrefix (JStr (js ''sudo sudo ls''))) = JStr (js ''ls'')"
  by (simp add: eval_defs)

section \<open>splitCompoundCommand\<close>

lemma is_space_not_operator: "is_space c \<Longrightarrow> c \<noteq> 38 \<and> c \<noteq> 124 \<and> c \<noteq> 59"
  by (auto simp: is_space_def)

lemma operator_at_Nil [simp]: "operator_at [] = None"
  by (simp add: operator_at_def js_def)

lemma operator_at_space: "is_space c \<Longrightarrow> operator_at (c # cs) = None"
  by (auto simp: operator_at_def js_def dest: is_space_not_operator)

lemma operator_at_bounds: "operator_at t = Some k \<Longrightarrow> 1 \<le> k \<and> k \<le> length t"
  by (auto simp: operator_at_def js_def prefix_def split: if_splits)

lemma rmatch_operator:
  "rmatch (Seq (alts [lit ''&&'', lit ''||'', lit '';'']) r) n t =
     (case operator_at t of None \<Rightarrow> [] | Some k \<Rightarrow> rmatch r n (drop k t))"
  by (auto simp: rmatch.simps(1,5,6) operator_at_def lit_def js_def prefix_def)

lemma SPLIT_PATTERN_rmatch:
  "rmatch SPLIT_PATTERN n s =
     (case operator_at (dropWhile is_space s) of
        None \<Rightarrow> []
      | Some k \<Rightarrow> rmatch (Star (Sat is_space)) n (drop k (dropWhile is_space s)))"
proof -
  let ?r = "Seq (alts [lit ''&&'', lit ''||'', lit '';'']) (Star (Sat is_space))"
  have "rmatch ?r n (c # cs) = []" if "is_space c" for c cs
    using that by (simp only: rmatch_operator operator_at_space option.case)
  then have "rmatch (Seq (Star (Sat is_space)) ?r) n s = rmatch ?r n (dropWhile is_space s)"
    by (rule Seq_Star_Sat_skip)
  also have "\<dots> = (case operator_at (dropWhile is_space s) of
        None \<Rightarrow> []
      | Some k \<Rightarrow> rmatch (Star (Sat is_space)) n (drop k (dropWhile is_space s)))"
    by (rule rmatch_operator)
  finally show ?thesis
    by (simp only: SPLIT_PATTERN_def ws_def seqs.simps)
qed

lemma SPLIT_PATTERN_first:
  "(case rmatch SPLIT_PATTERN n s of [] \<Rightarrow> None | e # _ \<Rightarrow> Some e) = separator_at s"
proof (cases "operator_at (dropWhile is_space s)")
  case None
  then show ?thesis by (simp add: SPLIT_PATTERN_rmatch separator_at_def)
next
  case (Some k)
  obtain rest where "rmatch (Star (Sat is_space)) n (drop k (dropWhile is_space s)) =
      dropWhile is_space (drop k (dropWhile is_space s)) # rest"
    using rmatch_Star_Sat_hd by blast
  with Some show ?thesis by (simp add: SPLIT_PATTERN_rmatch separator_at_def)
qed

lemma separator_at_shorter:
  assumes "separator_at s = Some e"
  shows "length e < length s"
proof -
  from assms obtain k where k: "operator_at (dropWhile is_space s) = Some k"
    and e: "e = dropWhile is_space (drop k (dropWhile is_space s))"
    by (auto simp: separator_at_def split: option.splits)
  from operator_at_bounds [OF k] have "1 \<le> k" "k \<le> length (dropWhile is_space s)" by auto
  moreover have "length e \<le> length (dropWhile is_space s) - k"
    unfolding e using length_dropWhile_le [of is_space "drop k (dropWhile is_space s)"] by simp
  moreover have "length (dropWhile is_space s) \<le> length s" by (rule length_dropWhile_le)
  ultimately show ?thesis by linarith
qed

lemma split_loop_SPLIT_Cons:
  "split_loop SPLIT_PATTERN n acc (c # cs) =
     (case separator_at (c # cs) of
        None \<Rightarrow> split_loop SPLIT_PATTERN n (acc @ [c]) cs
      | Some e \<Rightarrow> acc # split_loop SPLIT_PATTERN n [] e)"
proof (cases "rmatch SPLIT_PATTERN n (c # cs)")
  case Nil
  with SPLIT_PATTERN_first [of n "c # cs"] have "separator_at (c # cs) = None" by simp
  with Nil show ?thesis by simp
next
  case (Cons e es)
  with SPLIT_PATTERN_first [of n "c # cs"] have s: "separator_at (c # cs) = Some e" by simp
  from separator_at_shorter [OF s] have "length e < Suc (length cs)" by simp
  with Cons s show ?thesis by simp
qed

lemma split_loop_no_separator:
  "(\<And>t. suffix t s \<Longrightarrow> t \<noteq> [] \<Longrightarrow> separator_at t = None) \<Longrightarrow>
   split_loop SPLIT_PATTERN n acc s = [acc @ s]"
proof (induction s arbitrary: acc)
  case Nil
  show ?case by simp
next
  case (Cons c cs)
  have "separator_at (c # cs) = None" by (rule Cons.prems) simp_all
  moreover have "split_loop SPLIT_PATTERN n (acc @ [c]) cs = [(acc @ [c]) @ cs]"
    by (rule Cons.IH) (simp add: Cons.prems suffix_Cons)
  ultimately show ?case by (simp add: split_loop_SPLIT_Cons del: split_loop.simps)
qed

lemma has_infix_suffix: "has_infix w s \<longleftrightarrow> (\<exists>t. suffix t s \<and> prefix w t)"
  by (induction s) (auto simp: suffix_Cons)

lemma no_operator_separator_at:
  assumes "\<not> has_infix (js ''&&'') s" "\<not> has_infix (js ''||'') s" "\<not> has_infix (js '';'') s"
    and "suffix t s"
  shows "separator_at t = None"
proof -
  have "suffix (dropWhile is_space t) t" by (rule suffix_dropWhile)
  then have "suffix (dropWhile is_space t) s" using assms(4) by (rule suffix_order.trans)
  with assms(1-3) have "operator_at (dropWhile is_space t) = None"
    by (auto simp: has_infix_suffix operator_at_def)
  then show ?thesis by (simp add: separator_at_def)
qed

lemma trim_eq_Nil: "trim s = [] \<longleftrightarrow> (\<forall>x \<in> set s. is_space x)"
proof
  assume "trim s = []"
  then have a: "\<forall>x \<in> set (dropWhile is_space s). is_space x"
    by (simp add: trim_def)
  have "dropWhile is_space s = []"
  proof (rule ccontr)
    assume ne: "dropWhile is_space s \<noteq> []"
    then have "\<not> is_space (hd (dropWhile is_space s))" by (rule hd_dropWhile)
    with a ne show False by simp
  qed
  then show "\<forall>x \<in> set s. is_space x" by simp
next
  assume "\<forall>x \<in> set s. is_space x"
  then have d: "dropWhile is_space s = []" by simp
  show "trim s = []" unfolding trim_def d by simp
qed

section \<open>Narrowing\<close>

lemma no_operator_suffix: "no_operator x \<Longrightarrow> suffix t x \<Longrightarrow> operator_at t = None"
  by (induction x) (auto simp: suffix_Cons)

lemma no_operator_suffixI: "(\<And>t. suffix t x \<Longrightarrow> t \<noteq> [] \<Longrightarrow> operator_at t = None) \<Longrightarrow> no_operator x"
  by (induction x) (auto simp: suffix_Cons)

lemma no_operator_tail: "no_operator x \<Longrightarrow> suffix t x \<Longrightarrow> no_operator t"
  by (induction x) (auto simp: suffix_Cons)

lemma operator_at_append_Some: "operator_at t = Some k \<Longrightarrow> operator_at (t @ r) = Some k"
proof (cases t)
  case Nil
  assume "operator_at t = Some k"
  with Nil show ?thesis by simp
next
  case (Cons a t')
  assume "operator_at t = Some k"
  with Cons show ?thesis
    by (cases t') (auto simp: operator_at_def js_def split: if_splits)
qed

lemma operator_at_append_None:
  assumes "operator_at d = None" and "d \<noteq> []" and "r = [] \<or> (hd r \<noteq> 38 \<and> hd r \<noteq> 124)"
  shows "operator_at (d @ r) = None"
proof (cases d)
  case Nil
  with assms(2) show ?thesis by simp
next
  case (Cons a d')
  show ?thesis
  proof (cases d')
    case Nil
    with Cons assms(1,3) show ?thesis
      by (cases r) (auto simp: operator_at_def js_def split: if_splits)
  next
    case (Cons b d'')
    with \<open>d = a # d'\<close> assms(1) show ?thesis
      by (auto simp: operator_at_def js_def split: if_splits)
  qed
qed

lemma separator_at_space: "is_space c \<Longrightarrow> separator_at (c # cs) = separator_at cs"
  by (cases "operator_at (dropWhile is_space cs)") (simp_all add: separator_at_def)

lemma separator_at_None_operator: "separator_at s = None \<Longrightarrow> operator_at s = None"
proof (cases s)
  case (Cons c cs)
  assume n: "separator_at s = None"
  show ?thesis
  proof (cases "is_space c")
    case True
    with Cons show ?thesis by (simp add: operator_at_space)
  next
    case False
    with Cons n show ?thesis by (simp add: separator_at_def split: option.splits)
  qed
qed simp

text \<open>A piece that is followed by the separator \<open>" ; "\<close> and a further piece.\<close>

lemma split_loop_piece:
  assumes "no_operator u" and "u = [] \<or> \<not> is_space (last u)"
    and "y \<noteq> []" and "\<not> is_space (hd y)"
  shows "split_loop SPLIT_PATTERN n acc (u @ js '' ; '' @ y) = (acc @ u) # split_loop SPLIT_PATTERN n [] y"
  using assms(1,2)
proof (induction u arbitrary: acc)
  case Nil
  from assms(3,4) have "dropWhile is_space y = y" by (cases y) auto
  then have "separator_at (js '' ; '' @ y) = Some y"
    by (simp add: separator_at_def operator_at_def js_def is_space_def)
  then show ?case by (simp add: js_def split_loop_SPLIT_Cons del: split_loop.simps)
next
  case (Cons c cs)
  let ?rest = "js '' ; '' @ y"
  from Cons.prems(2) have l: "\<not> is_space (last (c # cs))" by simp
  then have "\<exists>x \<in> set (c # cs). \<not> is_space x"
    using last_in_set [of "c # cs"] by blast
  then obtain x where x: "x \<in> set (c # cs)" "\<not> is_space x" by blast
  then have d: "dropWhile is_space ((c # cs) @ ?rest) = dropWhile is_space (c # cs) @ ?rest"
    by (rule dropWhile_append1)
  from x have dne: "dropWhile is_space (c # cs) \<noteq> []"
    by (simp only: dropWhile_eq_Nil_conv) blast
  have "suffix (dropWhile is_space (c # cs)) (c # cs)" by (rule suffix_dropWhile)
  with Cons.prems(1) have "operator_at (dropWhile is_space (c # cs)) = None"
    by (rule no_operator_suffix)
  from operator_at_append_None [OF this dne, of ?rest]
  have "operator_at (dropWhile is_space (c # cs) @ ?rest) = None" by (simp add: js_def)
  with d have sep: "separator_at ((c # cs) @ ?rest) = None" by (simp add: separator_at_def)
  from Cons.prems(1) have 1: "no_operator cs" by simp
  from l have 2: "cs = [] \<or> \<not> is_space (last cs)" by (cases cs) auto
  from Cons.IH [OF 1 2, of "acc @ [c]"] sep show ?case
    by (simp add: split_loop_SPLIT_Cons del: split_loop.simps)
qed

lemma split_loop_last_piece:
  assumes "no_operator u"
  shows "split_loop SPLIT_PATTERN n acc u = [acc @ u]"
proof (rule split_loop_no_separator)
  fix t assume "suffix t u"
  moreover have "suffix (dropWhile is_space t) t" by (rule suffix_dropWhile)
  ultimately have "suffix (dropWhile is_space t) u" by (rule suffix_order.trans [rotated])
  with assms have "operator_at (dropWhile is_space t) = None" by (rule no_operator_suffix)
  then show "separator_at t = None" by (simp add: separator_at_def)
qed

lemma join_Cons_Cons: "join sep (x # y # ys) = x @ sep @ join sep (y # ys)"
  by simp

lemma hd_join: "x \<noteq> [] \<Longrightarrow> hd (join sep (x # xs)) = hd x"
  by (cases xs) simp_all

lemma join_nonempty: "x \<noteq> [] \<Longrightarrow> join sep (x # xs) \<noteq> []"
  by (cases xs) simp_all

text \<open>Splitting what was joined gives the pieces back.\<close>

lemma split_loop_join:
  assumes "ps \<noteq> []"
    and "\<forall>x \<in> set ps. no_operator x \<and> x \<noteq> []"
    and "\<forall>x \<in> set (butlast ps). \<not> is_space (last x)"
    and "\<forall>x \<in> set (tl ps). \<not> is_space (hd x)"
  shows "split_loop SPLIT_PATTERN n [] (join (js '' ; '') ps) = ps"
  using assms
proof (induction ps)
  case Nil
  then show ?case by simp
next
  case (Cons x ps)
  show ?case
  proof (cases ps)
    case Nil
    with Cons.prems(2) show ?thesis by (simp add: split_loop_last_piece del: split_loop.simps)
  next
    case (Cons y ys)
    from Cons.prems(2-4) Cons have x: "no_operator x" "\<not> is_space (last x)"
      and y: "y \<noteq> []" "\<not> is_space (hd y)" by auto
    let ?j = "join (js '' ; '') (y # ys)"
    from y have j: "?j \<noteq> []" "\<not> is_space (hd ?j)" by (simp_all add: join_nonempty hd_join)
    from x have "split_loop SPLIT_PATTERN n [] (x @ js '' ; '' @ ?j) =
        ([] @ x) # split_loop SPLIT_PATTERN n [] ?j"
      by (intro split_loop_piece j) simp_all
    moreover have "split_loop SPLIT_PATTERN n [] (join (js '' ; '') ps) = ps"
    proof (rule Cons.IH)
      show "ps \<noteq> []" using Cons by simp
      show "\<forall>x \<in> set ps. no_operator x \<and> x \<noteq> []" using Cons.prems(2) by simp
      show "\<forall>x \<in> set (butlast ps). \<not> is_space (last x)" using Cons.prems(3) Cons by simp
      show "\<forall>x \<in> set (tl ps). \<not> is_space (hd x)" using Cons.prems(4) Cons by simp
    qed
    ultimately show ?thesis using Cons by (simp del: split_loop.simps)
  qed
qed

text \<open>What \<open>split\<close> produces: the invariant of the loop and the shape of the pieces.\<close>

lemma split_loop_shape:
  assumes "\<And>t. suffix t acc \<Longrightarrow> t \<noteq> [] \<Longrightarrow> operator_at (t @ s) = None"
    and "acc = [] \<or> \<not> is_space (last acc) \<or> separator_at s = None"
  shows "split_loop SPLIT_PATTERN n acc s \<noteq> [] \<and>
         prefix (hd (split_loop SPLIT_PATTERN n acc s)) (acc @ s) \<and>
         (\<forall>x \<in> set (split_loop SPLIT_PATTERN n acc s). no_operator x) \<and>
         (\<forall>x \<in> set (butlast (split_loop SPLIT_PATTERN n acc s)). x = [] \<or> \<not> is_space (last x)) \<and>
         (\<forall>x \<in> set (tl (split_loop SPLIT_PATTERN n acc s)). x = [] \<or> \<not> is_space (hd x))"
  using assms
proof (induction "length s" arbitrary: acc s rule: less_induct)
  case less
  show ?case
  proof (cases s)
    case Nil
    have "no_operator acc"
      by (rule no_operator_suffixI) (use less.prems(1) Nil in auto)
    with Nil show ?thesis by simp
  next
    case (Cons c cs)
    show ?thesis
    proof (cases "separator_at (c # cs)")
      case None
      have a: "operator_at (t @ cs) = None" if "suffix t (acc @ [c])" "t \<noteq> []" for t
      proof -
        from that obtain t' where t: "t = t' @ [c]" "suffix t' acc"
          by (cases t rule: rev_cases) (auto simp: suffix_def)
        show ?thesis
        proof (cases "t' = []")
          case True
          with t None show ?thesis by (simp add: separator_at_None_operator)
        next
          case False
          with less.prems(1) [OF t(2)] t Cons show ?thesis by simp
        qed
      qed
      have b: "acc @ [c] = [] \<or> \<not> is_space (last (acc @ [c])) \<or> separator_at cs = None"
        using None by (cases "is_space c") (simp_all add: separator_at_space)
      have "length cs < length s" using Cons by simp
      from less.hyps [OF this a b] None Cons show ?thesis
        by (simp add: split_loop_SPLIT_Cons del: split_loop.simps)
    next
      case (Some e)
      let ?ps = "split_loop SPLIT_PATTERN n [] e"
      from separator_at_shorter [OF Some] Cons have "length e < length s" by simp
      from less.hyps [OF this, of "[]"]
      have ih: "?ps \<noteq> []" "prefix (hd ?ps) e" "\<forall>x \<in> set ?ps. no_operator x"
        "\<forall>x \<in> set (butlast ?ps). x = [] \<or> \<not> is_space (last x)"
        "\<forall>x \<in> set (tl ?ps). x = [] \<or> \<not> is_space (hd x)"
        by simp_all
      have acc: "no_operator acc"
      proof (rule no_operator_suffixI)
        fix t assume t: "suffix t acc" "t \<noteq> []"
        show "operator_at t = None"
        proof (cases "operator_at t")
          case (Some k)
          from operator_at_append_Some [OF this, of s] less.prems(1) [OF t]
          show ?thesis by simp
        qed simp
      qed
      from less.prems(2) Some Cons have trail: "acc = [] \<or> \<not> is_space (last acc)" by simp
      from Some obtain k where "e = dropWhile is_space (drop k (dropWhile is_space (c # cs)))"
        by (auto simp: separator_at_def split: option.splits)
      then have e: "e = [] \<or> \<not> is_space (hd e)"
        by (metis hd_dropWhile)
      have lead: "hd ?ps = [] \<or> \<not> is_space (hd (hd ?ps))"
      proof (cases "hd ?ps")
        case (Cons a as)
        with ih(2) e show ?thesis by (cases e) (auto simp: prefix_Cons)
      qed simp
      have tl: "\<forall>x \<in> set ?ps. x = [] \<or> \<not> is_space (hd x)"
        using ih(1,5) lead by (cases ?ps) auto
      have r: "split_loop SPLIT_PATTERN n acc s = acc # ?ps"
        using Some Cons by (simp add: split_loop_SPLIT_Cons del: split_loop.simps)
      show ?thesis
        unfolding r using ih acc trail tl by (auto simp del: split_loop.simps)
    qed
  qed
qed

lemma set_tl_filter: "set (tl (filter P xs)) \<subseteq> set (tl xs)"
proof (induction xs)
  case (Cons x xs)
  have "set (tl xs) \<subseteq> set xs" by (cases xs) auto
  with Cons show ?case by auto
qed simp

lemma set_butlast_filter: "set (butlast (filter P xs)) \<subseteq> set (butlast xs)"
proof (induction xs rule: rev_induct)
  case (snoc x xs)
  have "set (butlast (filter P xs)) \<subseteq> set xs"
    using in_set_butlastD by fastforce
  then show ?case by auto
qed simp

lemma filter_same_length: "length (filter P xs) = length xs \<Longrightarrow> filter P xs = xs"
proof -
  assume "length (filter P xs) = length xs"
  with sum_length_filter_compl [of P xs] have "filter (\<lambda>x. \<not> P x) xs = []" by simp
  then have "\<forall>x \<in> set xs. P x" by (simp add: filter_empty_conv)
  then show ?thesis by simp
qed

lemma split_join_filter:
  assumes "filter Q (splitCompoundCommand command) \<noteq> []"
  shows "splitCompoundCommand (JStr (join (js '' ; '') (filter Q (splitCompoundCommand command)))) =
         filter Q (splitCompoundCommand command)"
proof (cases command)
  case (JStr c)
  define raw where "raw = split_loop SPLIT_PATTERN (length c) [] c"
  define keep where "keep = (\<lambda>cmd::jstring. cmd \<noteq> [] \<and> 0 < length (trim cmd))"
  define ps where "ps = filter Q (filter keep raw)"
  define j where "j = join (js '' ; '') ps"
  have c: "c \<noteq> []"
  proof
    assume "c = []"
    with JStr have "splitCompoundCommand command = []" by simp
    with assms show False by simp
  qed
  then have "splitCompoundCommand (JStr c) = filter keep raw"
    by (simp add: js_split_def raw_def keep_def del: split_loop.simps)
  with JStr have ps: "filter Q (splitCompoundCommand command) = ps"
    by (simp only: ps_def)
  from assms ps have ne: "ps \<noteq> []" by simp
  have "raw \<noteq> [] \<and> prefix (hd raw) ([] @ c) \<and>
        (\<forall>x \<in> set raw. no_operator x) \<and>
        (\<forall>x \<in> set (butlast raw). x = [] \<or> \<not> is_space (last x)) \<and>
        (\<forall>x \<in> set (tl raw). x = [] \<or> \<not> is_space (hd x))"
    unfolding raw_def by (rule split_loop_shape) simp_all
  then have shape: "\<forall>x \<in> set raw. no_operator x"
    "\<forall>x \<in> set (butlast raw). x = [] \<or> \<not> is_space (last x)"
    "\<forall>x \<in> set (tl raw). x = [] \<or> \<not> is_space (hd x)"
    by blast+
  have sub: "set ps \<subseteq> set raw" by (auto simp: ps_def)
  have kept: "\<forall>x \<in> set ps. keep x" by (simp add: ps_def)
  then have nonempty: "\<forall>x \<in> set ps. x \<noteq> []" by (simp add: keep_def)
  have 1: "\<forall>x \<in> set ps. no_operator x \<and> x \<noteq> []"
    using shape(1) sub nonempty by blast
  have 2: "\<forall>x \<in> set (butlast ps). \<not> is_space (last x)"
  proof
    fix x assume x: "x \<in> set (butlast ps)"
    have "set (butlast ps) \<subseteq> set (butlast (filter keep raw))"
      unfolding ps_def by (rule set_butlast_filter)
    also have "\<dots> \<subseteq> set (butlast raw)" by (rule set_butlast_filter)
    finally have "x \<in> set (butlast raw)" using x by blast
    moreover from x have "x \<in> set ps" by (rule in_set_butlastD)
    ultimately show "\<not> is_space (last x)" using shape(2) nonempty by blast
  qed
  have 3: "\<forall>x \<in> set (tl ps). \<not> is_space (hd x)"
  proof
    fix x assume x: "x \<in> set (tl ps)"
    have "set (tl ps) \<subseteq> set (tl (filter keep raw))"
      unfolding ps_def by (rule set_tl_filter)
    also have "\<dots> \<subseteq> set (tl raw)" by (rule set_tl_filter)
    finally have "x \<in> set (tl raw)" using x by blast
    moreover from x have "x \<in> set ps" by (cases ps) auto
    ultimately show "\<not> is_space (hd x)" using shape(3) nonempty by blast
  qed
  have jne: "j \<noteq> []"
  proof (cases ps)
    case Nil
    with ne show ?thesis by simp
  next
    case (Cons x xs)
    with nonempty have "x \<noteq> []" by simp
    then have "join (js '' ; '') (x # xs) \<noteq> []" by (rule join_nonempty)
    then show ?thesis unfolding j_def Cons .
  qed
  have "split_loop SPLIT_PATTERN (length j) [] j = ps"
    unfolding j_def by (rule split_loop_join [OF ne 1 2 3])
  with jne have "js_split SPLIT_PATTERN j = ps" by (simp add: js_split_def del: split_loop.simps)
  moreover have "filter keep ps = ps"
    using kept by (simp only: filter_id_conv)
  ultimately have "splitCompoundCommand (JStr j) = ps"
    using jne by (simp add: keep_def del: split_loop.simps)
  then show ?thesis by (simp only: ps j_def)
next
  case JUndef with assms show ?thesis by simp
next
  case JNull with assms show ?thesis by simp
next
  case (JBool b) with assms show ?thesis by simp
next
  case (JNum i) with assms show ?thesis by simp
next
  case (JArr xs) with assms show ?thesis by simp
next
  case (JObj fs) with assms show ?thesis by simp
qed

text \<open>
  C8: where line 176 finds the command truthy and narrowing does not return early, the
  sub-commands of the narrowed command text are exactly the sub-commands of the original
  that were not allowed, each of them is still not allowed, and narrowing the narrowed
  input again leaves it as it is.
\<close>

theorem narrowing_does_not_re_expand:
  assumes "truthy (get_prop toolInput (js ''command''))"
    and "narrow_stage toolInput = Some narrowed"
  shows "splitCompoundCommand (get_prop narrowed (js ''command'')) =
           nonAllowed (splitCompoundCommand (get_prop toolInput (js ''command''))) \<and>
         nonAllowed (splitCompoundCommand (get_prop narrowed (js ''command''))) =
           splitCompoundCommand (get_prop narrowed (js ''command'')) \<and>
         narrow_stage narrowed = Some narrowed"
proof -
  let ?subs = "splitCompoundCommand (get_prop toolInput (js ''command''))"
  let ?na = "nonAllowed ?subs"
  let ?j = "join (js '' ; '') ?na"
  from assms have ne: "?na \<noteq> []"
    by (auto simp: narrow_stage_def Let_def split: if_splits)
  have idem: "nonAllowed ?na = ?na" by (simp add: nonAllowed_def)
  have split: "splitCompoundCommand (get_prop narrowed (js ''command'')) = ?na"
    and t: "truthy (get_prop narrowed (js ''command''))"
  proof -
    show "splitCompoundCommand (get_prop narrowed (js ''command'')) = ?na"
    proof (cases "length ?na < length ?subs")
      case True
      with assms ne have "narrowed = set_command toolInput (JStr ?j)"
        by (simp add: narrow_stage_def Let_def)
      then show ?thesis
        using split_join_filter [of "\<lambda>cmd. \<not> isAllowedCommand (JStr (trim cmd))" "get_prop toolInput (js ''command'')"] ne
        by (simp add: nonAllowed_def)
    next
      case False
      with assms ne have n: "narrowed = toolInput"
        by (simp add: narrow_stage_def Let_def)
      have "length ?na \<le> length ?subs" by (simp add: nonAllowed_def)
      with False have "length ?na = length ?subs" by simp
      then have "?na = ?subs" unfolding nonAllowed_def by (rule filter_same_length)
      with n show ?thesis by simp
    qed
    with ne have "splitCompoundCommand (get_prop narrowed (js ''command'')) \<noteq> []" by simp
    then show "truthy (get_prop narrowed (js ''command''))"
      by (cases "get_prop narrowed (js ''command'')") auto
  qed
  from split idem have 2: "nonAllowed (splitCompoundCommand (get_prop narrowed (js ''command''))) =
           splitCompoundCommand (get_prop narrowed (js ''command''))" by simp
  from t split idem ne have "narrow_stage narrowed = Some narrowed"
    by (simp add: narrow_stage_def Let_def)
  with split 2 show ?thesis by blast
qed

theorem narrowing_does_not_re_expand_witness:
  "truthy (get_prop (bash_input ''npm run build && cat a && ls b ; npm test'') (js ''command'')) \<and>
   narrow_stage (bash_input ''npm run build && cat a && ls b ; npm test'') =
     Some (bash_input ''cat a ; ls b'') \<and>
   splitCompoundCommand (get_prop (bash_input ''cat a ; ls b'') (js ''command'')) =
     [js ''cat a'', js ''ls b''] \<and>
   narrow_stage (bash_input ''cat a ; ls b'') = Some (bash_input ''cat a ; ls b'')"
proof -
  let ?ti = "bash_input ''npm run build && cat a && ls b ; npm test''"
  have h1: "truthy (get_prop ?ti (js ''command''))"
    by (simp add: bash_input_def js_def)
  have s: "splitCompoundCommand (get_prop ?ti (js ''command'')) =
             [js ''npm run build'', js ''cat a'', js ''ls b'', js ''npm test'']"
    by (simp add: bash_input_def eval_defs)
  have a: "isAllowedCommand (JStr (trim (js ''npm run build'')))"
          "\<not> isAllowedCommand (JStr (trim (js ''cat a'')))"
          "\<not> isAllowedCommand (JStr (trim (js ''ls b'')))"
          "isAllowedCommand (JStr (trim (js ''npm test'')))"
    by (simp_all add: eval_defs)
  have na: "nonAllowed (splitCompoundCommand (get_prop ?ti (js ''command''))) = [js ''cat a'', js ''ls b'']"
    unfolding s nonAllowed_def using a by simp
  have h2: "narrow_stage ?ti = Some (bash_input ''cat a ; ls b'')"
    unfolding narrow_stage_def Let_def na using h1 by (simp add: s) (simp add: bash_input_def js_def)
  from narrowing_does_not_re_expand [OF h1 h2] na h1 h2 show ?thesis by simp
qed

section \<open>What splitCompoundCommand returns\<close>

lemma split_loop_length_irrelevant:
  "split_loop SPLIT_PATTERN n acc s = split_loop SPLIT_PATTERN m acc s"
proof (induction "length s" arbitrary: acc s rule: less_induct)
  case less
  show ?case
  proof (cases s)
    case Nil
    then show ?thesis by simp
  next
    case (Cons c cs)
    show ?thesis
    proof (cases "separator_at (c # cs)")
      case None
      have "length cs < length s" using Cons by simp
      from less.hyps [OF this] None Cons show ?thesis
        by (simp add: split_loop_SPLIT_Cons del: split_loop.simps)
    next
      case (Some e)
      from separator_at_shorter [OF Some] Cons have "length e < length s" by simp
      from less.hyps [OF this] Some Cons show ?thesis
        by (simp add: split_loop_SPLIT_Cons del: split_loop.simps)
    qed
  qed
qed

lemma operator_at_append_last:
  assumes "operator_at d = None" and "d \<noteq> []" and "last d \<noteq> 38" and "last d \<noteq> 124"
  shows "operator_at (d @ r) = None"
proof (cases d)
  case Nil
  with assms(2) show ?thesis by simp
next
  case (Cons a d')
  show ?thesis
  proof (cases d')
    case Nil
    with Cons assms(1,3,4) show ?thesis
      by (cases r) (auto simp: operator_at_def js_def split: if_splits)
  next
    case (Cons b d'')
    with \<open>d = a # d'\<close> assms(1) show ?thesis
      by (auto simp: operator_at_def js_def split: if_splits)
  qed
qed

lemma operator_at_operator:
  "op \<in> {js ''&&'', js ''||'', js '';''} \<Longrightarrow> operator_at (op @ r) = Some (length op)"
  by (auto simp: operator_at_def js_def)

lemma operator_not_space:
  "op \<in> {js ''&&'', js ''||'', js '';''} \<Longrightarrow> op \<noteq> [] \<and> \<not> is_space (hd op)"
  by (auto simp: js_def is_space_def)

lemma separator_at_operator:
  assumes "\<forall>x \<in> set w1. is_space x" and "\<forall>x \<in> set w2. is_space x"
    and "op \<in> {js ''&&'', js ''||'', js '';''}"
    and "b = [] \<or> \<not> is_space (hd b)"
  shows "separator_at (w1 @ op @ w2 @ b) = Some b"
proof -
  from operator_not_space [OF assms(3)] have "dropWhile is_space (op @ w2 @ b) = op @ w2 @ b"
    by (cases op) auto
  with assms(1) have 1: "dropWhile is_space (w1 @ op @ w2 @ b) = op @ w2 @ b"
    by (simp add: dropWhile_append2)
  from assms(4) have "dropWhile is_space b = b" by (cases b) auto
  with assms(2) have 2: "dropWhile is_space (w2 @ b) = b"
    by (simp add: dropWhile_append2)
  show ?thesis
    unfolding separator_at_def 1 operator_at_operator [OF assms(3)] using 2 by simp
qed

lemma suffix_last: "suffix d xs \<Longrightarrow> d \<noteq> [] \<Longrightarrow> last d = last xs"
  by (auto simp: suffix_def)

text \<open>A piece that is followed by an operator, with white space around it, and a rest.\<close>

lemma split_loop_separator:
  assumes "no_operator u"
    and "u = [] \<or> (\<not> is_space (last u) \<and> last u \<noteq> 38 \<and> last u \<noteq> 124)"
    and "\<forall>x \<in> set w1. is_space x" and "\<forall>x \<in> set w2. is_space x"
    and "op \<in> {js ''&&'', js ''||'', js '';''}"
    and "b = [] \<or> \<not> is_space (hd b)"
  shows "split_loop SPLIT_PATTERN n acc (u @ w1 @ op @ w2 @ b) =
           (acc @ u) # split_loop SPLIT_PATTERN n [] b"
  using assms(1,2)
proof (induction u arbitrary: acc)
  case Nil
  let ?rest = "w1 @ op @ w2 @ b"
  have s: "separator_at ?rest = Some b" by (rule separator_at_operator [OF assms(3-6)])
  from operator_not_space [OF assms(5)] obtain c cs where "?rest = c # cs"
    by (cases ?rest) auto
  with s have "split_loop SPLIT_PATTERN n acc ?rest = acc # split_loop SPLIT_PATTERN n [] b"
    by (simp add: split_loop_SPLIT_Cons del: split_loop.simps)
  then show ?case by simp
next
  case (Cons c cs)
  let ?rest = "w1 @ op @ w2 @ b"
  from Cons.prems(2) have l: "\<not> is_space (last (c # cs))"
    "last (c # cs) \<noteq> 38" "last (c # cs) \<noteq> 124" by simp_all
  from l(1) have "\<exists>x \<in> set (c # cs). \<not> is_space x"
    using last_in_set [of "c # cs"] by blast
  then obtain x where x: "x \<in> set (c # cs)" "\<not> is_space x" by blast
  then have d: "dropWhile is_space ((c # cs) @ ?rest) = dropWhile is_space (c # cs) @ ?rest"
    by (rule dropWhile_append1)
  from x have dne: "dropWhile is_space (c # cs) \<noteq> []"
    by (simp only: dropWhile_eq_Nil_conv) blast
  have suf: "suffix (dropWhile is_space (c # cs)) (c # cs)" by (rule suffix_dropWhile)
  then have lastd: "last (dropWhile is_space (c # cs)) = last (c # cs)"
    using dne by (rule suffix_last)
  from Cons.prems(1) suf have "operator_at (dropWhile is_space (c # cs)) = None"
    by (rule no_operator_suffix)
  from operator_at_append_last [OF this dne, of ?rest] l(2,3) lastd
  have "operator_at (dropWhile is_space (c # cs) @ ?rest) = None" by simp
  with d have sep: "separator_at ((c # cs) @ ?rest) = None" by (simp add: separator_at_def)
  from Cons.prems(1) have 1: "no_operator cs" by simp
  from l have 2: "cs = [] \<or> (\<not> is_space (last cs) \<and> last cs \<noteq> 38 \<and> last cs \<noteq> 124)"
    by (cases cs) auto
  from Cons.IH [OF 1 2, of "acc @ [c]"] sep show ?case
    by (simp add: split_loop_SPLIT_Cons del: split_loop.simps)
qed

lemma no_operator_iff:
  "no_operator u \<longleftrightarrow>
     \<not> has_infix (js ''&&'') u \<and> \<not> has_infix (js ''||'') u \<and> \<not> has_infix (js '';'') u"
proof
  assume n: "no_operator u"
  have "\<not> prefix w t" if "suffix t u" "w \<in> {js ''&&'', js ''||'', js '';''}" for t w
  proof
    assume "prefix w t"
    then obtain r where "t = w @ r" by (auto simp: prefix_def)
    with operator_at_operator [OF that(2), of r] no_operator_suffix [OF n that(1)]
    show False by simp
  qed
  then show "\<not> has_infix (js ''&&'') u \<and> \<not> has_infix (js ''||'') u \<and> \<not> has_infix (js '';'') u"
    by (auto simp: has_infix_suffix)
next
  assume a: "\<not> has_infix (js ''&&'') u \<and> \<not> has_infix (js ''||'') u \<and> \<not> has_infix (js '';'') u"
  show "no_operator u"
  proof (rule no_operator_suffixI)
    fix t assume "suffix t u"
    with a show "operator_at t = None"
      by (auto simp: has_infix_suffix operator_at_def)
  qed
qed

lemma split_raw:
  "c \<noteq> [] \<Longrightarrow>
   splitCompoundCommand (JStr c) =
     filter (\<lambda>cmd. trim cmd \<noteq> []) (split_loop SPLIT_PATTERN (length c) [] c)"
proof -
  assume "c \<noteq> []"
  moreover have "(\<lambda>cmd::jstring. cmd \<noteq> [] \<and> 0 < length (trim cmd)) = (\<lambda>cmd. trim cmd \<noteq> [])"
    by (rule ext) (auto simp: trim_def)
  ultimately show ?thesis by (simp add: js_split_def del: split_loop.simps)
qed

lemma split_pieces:
  assumes "p \<in> set (splitCompoundCommand (JStr c))"
  shows "trim p \<noteq> [] \<and> no_operator p"
proof (cases "c = []")
  case True
  with assms show ?thesis by simp
next
  case False
  have "\<forall>x \<in> set (split_loop SPLIT_PATTERN (length c) [] c). no_operator x"
    using split_loop_shape [of "[]" c "length c"] by simp
  with assms show ?thesis unfolding split_raw [OF False] by simp
qed

lemma split_separator:
  assumes "no_operator u"
    and "u = [] \<or> (\<not> is_space (last u) \<and> last u \<noteq> 38 \<and> last u \<noteq> 124)"
    and "\<forall>x \<in> set w1. is_space x" and "\<forall>x \<in> set w2. is_space x"
    and "op \<in> {js ''&&'', js ''||'', js '';''}"
    and "b = [] \<or> \<not> is_space (hd b)"
  shows "splitCompoundCommand (JStr (u @ w1 @ op @ w2 @ b)) =
           (if u = [] then [] else [u]) @ splitCompoundCommand (JStr b)"
proof -
  let ?c = "u @ w1 @ op @ w2 @ b"
  from operator_not_space [OF assms(5)] have c: "?c \<noteq> []" by simp
  have raw: "split_loop SPLIT_PATTERN (length ?c) [] ?c =
        ([] @ u) # split_loop SPLIT_PATTERN (length ?c) [] b"
    by (rule split_loop_separator [OF assms])
  have u: "trim u \<noteq> [] \<longleftrightarrow> u \<noteq> []"
  proof (cases "u = []")
    case True
    then show ?thesis by (simp add: trim_def)
  next
    case False
    with assms(2) have "\<not> is_space (last u)" by simp
    with False have "\<not> (\<forall>x \<in> set u. is_space x)" using last_in_set [of u] by blast
    with False show ?thesis by (simp add: trim_eq_Nil)
  qed
  have b: "filter (\<lambda>cmd. trim cmd \<noteq> []) (split_loop SPLIT_PATTERN (length ?c) [] b) =
           splitCompoundCommand (JStr b)"
  proof (cases "b = []")
    case True
    then show ?thesis by (simp add: trim_def)
  next
    case False
    show ?thesis
      using split_loop_length_irrelevant [of "length ?c" "[]" b "length b"]
      by (simp only: split_raw [OF False])
  qed
  have "splitCompoundCommand (JStr ?c) =
          filter (\<lambda>cmd. trim cmd \<noteq> []) (u # split_loop SPLIT_PATTERN (length ?c) [] b)"
    by (simp only: split_raw [OF c] raw append_Nil)
  also have "\<dots> = (if u = [] then [] else [u]) @
          filter (\<lambda>cmd. trim cmd \<noteq> []) (split_loop SPLIT_PATTERN (length ?c) [] b)"
    using u by (simp del: split_loop.simps)
  also note b
  finally show ?thesis .
qed

lemma split_blank: "trim c = [] \<Longrightarrow> splitCompoundCommand (JStr c) = []"
proof (cases "c = []")
  case False
  assume blank: "trim c = []"
  have "split_loop SPLIT_PATTERN (length c) [] c = [[] @ c]"
  proof (rule split_loop_no_separator)
    fix t assume "suffix t c"
    then have "set t \<subseteq> set c" by (auto simp: suffix_def)
    with blank have "\<forall>x \<in> set t. is_space x" by (auto simp: trim_eq_Nil)
    then have d: "dropWhile is_space t = []" by simp
    show "separator_at t = None" by (simp only: separator_at_def d operator_at_Nil option.case)
  qed
  with blank show ?thesis unfolding split_raw [OF False] by simp
qed simp

lemma split_single:
  assumes "trim c \<noteq> []" and "no_operator c"
  shows "splitCompoundCommand (JStr c) = [c]"
proof -
  from assms(1) have c: "c \<noteq> []" by (auto simp: trim_def)
  have "split_loop SPLIT_PATTERN (length c) [] c = [[] @ c]"
    by (rule split_loop_last_piece [OF assms(2)])
  with assms(1) show ?thesis unfolding split_raw [OF c] by simp
qed





section \<open>unwrapShellExecutor\<close>

lemma Seq_Many1_ws:
  assumes "\<And>c cs. is_space c \<Longrightarrow> rmatch r n (c # cs) = []"
  shows "rmatch (Seq (Many1 ws) r) n u = (case after_spaces u of None \<Rightarrow> [] | Some v \<Rightarrow> rmatch r n v)"
proof -
  have "rmatch (Seq (Many1 (Sat is_space)) r) n u =
          (case u of [] \<Rightarrow> [] | c # cs \<Rightarrow> if is_space c then rmatch r n (dropWhile is_space cs) else [])"
    by (rule Seq_Many1_Sat_skip) (rule assms)
  then show ?thesis by (cases u) (simp_all add: ws_def after_spaces_def)
qed

lemma is_space_not_quote: "is_space c \<Longrightarrow> \<not> is_quote c"
  by (auto simp: is_space_def is_quote_def)

lemma rmatch_dash_c:
  "rmatch (Seq (Many1 ws) (lit ''-c'')) n u = (case after_dash_c u of None \<Rightarrow> [] | Some v \<Rightarrow> [v])"
proof -
  have "rmatch (lit ''-c'') n (c # cs) = []" if "is_space c" for c cs
    using that by (auto simp: rmatch.simps(1) lit_def js_def is_space_def)
  from Seq_Many1_ws [of "lit ''-c''" n u, OF this] show ?thesis
    by (cases "after_spaces u")
       (simp_all add: after_dash_c_def rmatch.simps(1) lit_def js_def eval_nat_numeral)
qed

lemma rmatch_lit_Seq:
  "rmatch (Seq (Lit w) r) n t = (if prefix w t then rmatch r n (drop (length w) t) else [])"
  by (simp add: rmatch.simps(1,5))

lemma rmatch_Alt_Seq:
  "rmatch (Seq (Alt a b) r) n t = rmatch (Seq a r) n t @ rmatch (Seq b r) n t"
  by (simp add: rmatch.simps(5,6))

lemma prefix_hd: "prefix (c # w) t \<Longrightarrow> hd t = c"
  by (cases t) simp_all

lemma rmatch_head:
  "rmatch (Alt (seqs [alts (map lit [''bash'', ''sh'', ''zsh'']), Many1 ws, lit ''-c'']) (lit ''eval'')) n t =
     (case after_head t of None \<Rightarrow> [] | Some u \<Rightarrow> [u])"
proof -
  let ?dc = "Seq (Many1 ws) (lit ''-c'')"
  let ?r = "Alt (Seq (Alt (Lit (js ''bash'')) (Alt (Lit (js ''sh'')) (Lit (js ''zsh'')))) ?dc)
                (Lit (js ''eval''))"
  have r: "rmatch ?r n t =
      (if prefix (js ''bash'') t then rmatch ?dc n (drop (length (js ''bash'')) t) else []) @
      (if prefix (js ''sh'') t then rmatch ?dc n (drop (length (js ''sh'')) t) else []) @
      (if prefix (js ''zsh'') t then rmatch ?dc n (drop (length (js ''zsh'')) t) else []) @
      (if prefix (js ''eval'') t then [drop (length (js ''eval'')) t] else [])"
    by (simp only: rmatch.simps(6) rmatch_Alt_Seq rmatch_lit_Seq rmatch.simps(1) append_assoc)
  have len: "length (js ''bash'') = 4" "length (js ''sh'') = 2" "length (js ''zsh'') = 3"
    "length (js ''eval'') = 4"
    by (simp_all add: js_def)
  have h: "prefix (js ''bash'') t \<Longrightarrow> hd t = 98" "prefix (js ''sh'') t \<Longrightarrow> hd t = 115"
    "prefix (js ''zsh'') t \<Longrightarrow> hd t = 122" "prefix (js ''eval'') t \<Longrightarrow> hd t = 101"
    by (simp_all add: js_def prefix_hd)
  have "rmatch ?r n t = (case after_head t of None \<Rightarrow> [] | Some u \<Rightarrow> [u])"
  proof (cases "prefix (js ''bash'') t")
    case True
    with h have "\<not> prefix (js ''sh'') t" "\<not> prefix (js ''zsh'') t" "\<not> prefix (js ''eval'') t"
      by fastforce+
    with True show ?thesis by (simp add: r len after_head_def rmatch_dash_c)
  next
    case nb: False
    show ?thesis
    proof (cases "prefix (js ''sh'') t")
      case True
      with h have "\<not> prefix (js ''zsh'') t" "\<not> prefix (js ''eval'') t" by fastforce+
      with True nb show ?thesis by (simp add: r len after_head_def rmatch_dash_c)
    next
      case ns: False
      show ?thesis
      proof (cases "prefix (js ''zsh'') t")
        case True
        with h have "\<not> prefix (js ''eval'') t" by fastforce
        with True nb ns show ?thesis by (simp add: r len after_head_def rmatch_dash_c)
      next
        case False
        with nb ns show ?thesis by (simp add: r len after_head_def)
      qed
    qed
  qed
  then show ?thesis by (simp add: lit_def)
qed

lemma rmatch_EXECUTOR_PRE:
  "rmatch EXECUTOR_PRE (length t) t =
     (case quoted_argument t of None \<Rightarrow> [] | Some (q, a) \<Rightarrow> [a])"
proof -
  let ?head = "Alt (seqs [alts (map lit [''bash'', ''sh'', ''zsh'']), Many1 ws, lit ''-c'']) (lit ''eval'')"
  let ?open = "Seq (Many1 ws) (Sat is_quote)"
  have q: "rmatch (Sat is_quote) n (c # cs) = []" if "is_space c" for c cs n
    using that by (simp add: rmatch.simps(2) is_space_not_quote)
  have op: "rmatch ?open n u =
      (case after_spaces u of None \<Rightarrow> [] | Some v \<Rightarrow> rmatch (Sat is_quote) n v)" for n u
    by (rule Seq_Many1_ws) (rule q)
  have "rmatch EXECUTOR_PRE (length t) t = rmatch (Seq ?head ?open) (length t) t"
    unfolding EXECUTOR_PRE_def by (simp only: seqs.simps rmatch_Bol_start)
  also have "\<dots> = concat (map (rmatch ?open (length t)) (rmatch ?head (length t) t))"
    by (simp only: rmatch.simps(5))
  also have "\<dots> = (case quoted_argument t of None \<Rightarrow> [] | Some (q, a) \<Rightarrow> [a])"
    unfolding rmatch_head
    by (auto simp: quoted_argument_def op rmatch.simps(2) split: option.splits list.splits)
  finally show ?thesis .
qed

lemma rmatch_spaces_Eol:
  "rmatch (Seq (Star (Sat is_space)) Eol) n w = (if \<forall>c \<in> set w. is_space c then [[]] else [])"
proof -
  have e: "rmatch Eol n (c # cs) = []" for c cs by (simp add: rmatch.simps(4))
  have skip: "rmatch (Seq (Star (Sat is_space)) Eol) n w = rmatch Eol n (dropWhile is_space w)"
    by (rule Seq_Star_Sat_skip) (rule e)
  show ?thesis
  proof (cases "\<forall>c \<in> set w. is_space c")
    case True
    then have "dropWhile is_space w = []" by simp
    with True show ?thesis by (simp add: skip rmatch.simps(4))
  next
    case False
    then have "dropWhile is_space w \<noteq> []" by simp
    with False show ?thesis by (simp add: skip rmatch.simps(4))
  qed
qed

lemma rmatch_EXECUTOR_POST_list:
  "rmatch EXECUTOR_POST n b =
     (case b of [] \<Rightarrow> []
      | q # w \<Rightarrow> if is_quote q \<and> (\<forall>c \<in> set w. is_space c) then [[]] else [])"
proof -
  have post: "rmatch EXECUTOR_POST n b =
      concat (map (rmatch (Seq (Star (Sat is_space)) Eol) n) (rmatch (Sat is_quote) n b))" for b
    unfolding EXECUTOR_POST_def seqs.simps ws_def by (rule rmatch.simps(5))
  show ?thesis
  proof (cases b)
    case Nil
    show ?thesis unfolding post Nil by (simp add: rmatch.simps(2))
  next
    case (Cons q w)
    show ?thesis
    proof (cases "is_quote q")
      case True
      show ?thesis unfolding post Cons
        by (cases "\<forall>c \<in> set w. is_space c") (simp_all add: rmatch.simps(2) rmatch_spaces_Eol True)
    next
      case False
      show ?thesis unfolding post Cons by (simp add: rmatch.simps(2) False)
    qed
  qed
qed

lemma rmatch_EXECUTOR_POST:
  "rmatch EXECUTOR_POST n b \<noteq> [] \<longleftrightarrow>
     (case b of [] \<Rightarrow> False | q # w \<Rightarrow> is_quote q \<and> (\<forall>c \<in> set w. is_space c))"
  unfolding rmatch_EXECUTOR_POST_list by (cases b) simp_all

lemma POST_at_end:
  assumes "b = [] \<or> \<not> is_space (last b)"
  shows "rmatch EXECUTOR_POST n b \<noteq> [] \<longleftrightarrow> (\<exists>q. b = [q] \<and> is_quote q)"
proof (cases b)
  case Nil
  then show ?thesis by (simp add: rmatch_EXECUTOR_POST)
next
  case (Cons q w)
  show ?thesis
  proof (cases w)
    case Nil
    with Cons show ?thesis by (simp add: rmatch_EXECUTOR_POST)
  next
    case (Cons c cs)
    with \<open>b = q # w\<close> assms have "\<not> is_space (last w)" by simp
    moreover have "last w \<in> set w" using Cons by simp
    ultimately have "\<not> (\<forall>c \<in> set w. is_space c)" by blast
    with \<open>b = q # w\<close> Cons show ?thesis by (simp add: rmatch_EXECUTOR_POST)
  qed
qed

lemma POST_whole:
  assumes "\<not> is_space (last (c # cs))"
  shows "rmatch EXECUTOR_POST n (c # cs) = (if cs = [] \<and> is_quote c then [[]] else [])"
proof (cases "cs = []")
  case True
  then show ?thesis by (simp add: rmatch_EXECUTOR_POST_list)
next
  case False
  with assms have "\<not> is_space (last cs)" by simp
  moreover have "last cs \<in> set cs" using False by simp
  ultimately have "\<not> (\<forall>x \<in> set cs. is_space x)" by blast
  with False show ?thesis by (simp add: rmatch_EXECUTOR_POST_list)
qed

lemma take_Cons_diff:
  "length b \<le> length cs \<Longrightarrow>
   take (length (c # cs) - length b) (c # cs) = c # take (length cs - length b) cs"
  by (simp add: Suc_diff_le)

lemma Star_dot_Cons:
  "rmatch (Star (Sat is_dot)) n (c # cs) =
     (if is_dot c then rmatch (Star (Sat is_dot)) n cs @ [c # cs] else [c # cs])"
  by (subst rmatch_Star_Sat) simp

lemma Star_dot_Nil: "rmatch (Star (Sat is_dot)) n [] = [[]]"
  by (subst rmatch_Star_Sat) simp

lemma candidates_shift:
  "map (\<lambda>b. if rmatch EXECUTOR_POST n b = [] then []
             else [p @ take (length (c # cs) - length b) (c # cs)])
       (rmatch (Star (Sat is_dot)) n cs) =
   map (\<lambda>b. if rmatch EXECUTOR_POST n b = [] then []
             else [(p @ [c]) @ take (length cs - length b) cs])
       (rmatch (Star (Sat is_dot)) n cs)"
proof (rule map_cong [OF refl])
  fix b assume "b \<in> set (rmatch (Star (Sat is_dot)) n cs)"
  then have "length b \<le> length cs" by (rule rmatch_length)
  then show "(if rmatch EXECUTOR_POST n b = [] then []
              else [p @ take (length (c # cs) - length b) (c # cs)]) =
             (if rmatch EXECUTOR_POST n b = [] then []
              else [(p @ [c]) @ take (length cs - length b) cs])"
    by (simp only: take_Cons_diff append_assoc append_Cons append_Nil)
qed

text \<open>The candidates for the end of the capturing group, longest first.\<close>

lemma group_candidates:
  assumes "cs = [] \<or> \<not> is_space (last cs)"
  shows "concat (map (\<lambda>b. if rmatch EXECUTOR_POST n b = [] then []
                          else [p @ take (length cs - length b) cs])
                     (rmatch (Star (Sat is_dot)) n cs)) =
         (if cs \<noteq> [] \<and> is_quote (last cs) \<and> list_all is_dot (butlast cs)
          then [p @ butlast cs] else [])"
  using assms
proof (induction cs arbitrary: p)
  case Nil
  show ?case by (simp add: Star_dot_Nil rmatch_EXECUTOR_POST_list)
next
  case (Cons c cs)
  define F where "F = (\<lambda>b. if rmatch EXECUTOR_POST n b = [] then []
                          else [p @ take (length (c # cs) - length b) (c # cs)])"
  from Cons.prems have nsp: "\<not> is_space (last (c # cs))" by simp
  then have tl: "cs = [] \<or> \<not> is_space (last cs)" by (cases cs) auto
  have whole: "F (c # cs) = (if cs = [] \<and> is_quote c then [p] else [])"
    unfolding F_def POST_whole [OF nsp] by simp
  have inner: "concat (map F (rmatch (Star (Sat is_dot)) n cs)) =
      (if cs \<noteq> [] \<and> is_quote (last cs) \<and> list_all is_dot (butlast cs)
       then [(p @ [c]) @ butlast cs] else [])"
    unfolding F_def candidates_shift by (rule Cons.IH [OF tl])
  have star: "concat (map F (rmatch (Star (Sat is_dot)) n (c # cs))) =
      (if is_dot c then concat (map F (rmatch (Star (Sat is_dot)) n cs)) @ F (c # cs)
       else F (c # cs))"
    by (simp add: Star_dot_Cons)
  have "concat (map F (rmatch (Star (Sat is_dot)) n (c # cs))) =
         (if c # cs \<noteq> [] \<and> is_quote (last (c # cs)) \<and> list_all is_dot (butlast (c # cs))
          then [p @ butlast (c # cs)] else [])"
    unfolding star inner whole by (cases "cs = []") simp_all
  then show ?case unfolding F_def .
qed

lemma rmatch_EXECUTOR_GROUP:
  "rmatch EXECUTOR_GROUP n a =
     (case a of [] \<Rightarrow> [] | c # cs \<Rightarrow> if is_dot c then rmatch (Star (Sat is_dot)) n cs else [])"
  unfolding EXECUTOR_GROUP_def by (cases a) (simp_all add: rmatch.simps(2,5))

lemma group_at_argument:
  assumes "a = [] \<or> \<not> is_space (last a)"
  shows "concat (map (\<lambda>b. if rmatch EXECUTOR_POST n b = [] then []
                          else [take (length a - length b) a])
                     (rmatch EXECUTOR_GROUP n a)) =
         (if 2 \<le> length a \<and> is_quote (last a) \<and> list_all is_dot (butlast a)
          then [butlast a] else [])"
proof (cases a)
  case Nil
  then show ?thesis by (simp add: rmatch_EXECUTOR_GROUP)
next
  case (Cons c cs)
  define F where "F = (\<lambda>b. if rmatch EXECUTOR_POST n b = [] then []
                          else [[] @ take (length (c # cs) - length b) (c # cs)])"
  from assms Cons have tl: "cs = [] \<or> \<not> is_space (last cs)" by (cases cs) auto
  have inner: "concat (map F (rmatch (Star (Sat is_dot)) n cs)) =
      (if cs \<noteq> [] \<and> is_quote (last cs) \<and> list_all is_dot (butlast cs)
       then [([] @ [c]) @ butlast cs] else [])"
    unfolding F_def candidates_shift by (rule group_candidates [OF tl])
  have grp: "concat (map F (rmatch EXECUTOR_GROUP n (c # cs))) =
      (if is_dot c then concat (map F (rmatch (Star (Sat is_dot)) n cs)) else [])"
    by (simp add: rmatch_EXECUTOR_GROUP)
  have F': "F = (\<lambda>b. if rmatch EXECUTOR_POST n b = [] then []
                          else [take (length a - length b) a])"
    unfolding F_def Cons by (rule ext) simp
  have "concat (map F (rmatch EXECUTOR_GROUP n a)) =
         (if 2 \<le> length a \<and> is_quote (last a) \<and> list_all is_dot (butlast a)
          then [butlast a] else [])"
    unfolding Cons grp inner by (cases cs) auto
  then show ?thesis unfolding F' .
qed

lemma after_spaces_suffix: "after_spaces u = Some v \<Longrightarrow> suffix v u \<and> length v < length u"
proof (cases u)
  case (Cons c cs)
  assume "after_spaces u = Some v"
  with Cons have v: "v = dropWhile is_space cs" by (simp add: after_spaces_def split: if_splits)
  have "suffix (dropWhile is_space cs) cs" by (rule suffix_dropWhile)
  then have "suffix v (c # cs)" unfolding v by (rule suffix_ConsI)
  moreover have "length v \<le> length cs" unfolding v by (rule length_dropWhile_le)
  ultimately show ?thesis using Cons by simp
qed (simp add: after_spaces_def)

lemma after_dash_c_suffix: "after_dash_c u = Some v \<Longrightarrow> suffix v u"
proof -
  assume a: "after_dash_c u = Some v"
  then obtain w where w: "after_spaces u = Some w" and v: "v = drop 2 w"
    by (auto simp: after_dash_c_def split: option.splits if_splits)
  from after_spaces_suffix [OF w] have "suffix w u" by simp
  moreover have "suffix (drop 2 w) w" by (rule suffix_drop)
  ultimately show ?thesis unfolding v by (rule suffix_order.trans [rotated])
qed

lemma after_head_suffix: "after_head t = Some u \<Longrightarrow> suffix u t"
proof -
  assume a: "after_head t = Some u"
  have d: "suffix u t" if "after_dash_c (drop k t) = Some u" for k
  proof -
    from that have "suffix u (drop k t)" by (rule after_dash_c_suffix)
    moreover have "suffix (drop k t) t" by (rule suffix_drop)
    ultimately show ?thesis by (rule suffix_order.trans)
  qed
  show ?thesis
  proof (cases "prefix (js ''bash'') t")
    case True
    with a have "after_dash_c (drop 4 t) = Some u" by (simp only: after_head_def if_True)
    then show ?thesis by (rule d)
  next
    case nb: False
    show ?thesis
    proof (cases "prefix (js ''sh'') t")
      case True
      with a nb have "after_dash_c (drop 2 t) = Some u" by (simp only: after_head_def if_True if_False)
      then show ?thesis by (rule d)
    next
      case ns: False
      show ?thesis
      proof (cases "prefix (js ''zsh'') t")
        case True
        with a nb ns have "after_dash_c (drop 3 t) = Some u"
          by (simp only: after_head_def if_True if_False)
        then show ?thesis by (rule d)
      next
        case nz: False
        show ?thesis
        proof (cases "prefix (js ''eval'') t")
          case True
          with a nb ns nz have "Some (drop 4 t) = Some u"
            by (simp only: after_head_def if_True if_False)
          then have "u = drop 4 t" by simp
          then show ?thesis by (simp only: suffix_drop)
        next
          case False
          with a nb ns nz have "None = Some u" by (simp only: after_head_def if_True if_False)
          then show ?thesis by simp
        qed
      qed
    qed
  qed
qed

lemma quoted_argument_suffix:
  assumes "quoted_argument t = Some (q, a)"
  shows "suffix (q # a) t \<and> is_quote q"
proof -
  from assms obtain u where u: "after_head t = Some u" and s: "after_spaces u = Some (q # a)"
    and q: "is_quote q"
    by (auto simp: quoted_argument_def split: option.splits list.splits if_splits)
  from after_spaces_suffix [OF s] have "suffix (q # a) u" by simp
  moreover from u have "suffix u t" by (rule after_head_suffix)
  ultimately have "suffix (q # a) t" by (rule suffix_order.trans)
  with q show ?thesis by simp
qed

lemma group_at_EXECUTOR:
  assumes "t = [] \<or> \<not> is_space (last t)"
  shows "group_at EXECUTOR_PRE EXECUTOR_GROUP EXECUTOR_POST (length t) t =
     (case quoted_argument t of
        None \<Rightarrow> []
      | Some (q, a) \<Rightarrow>
          if 2 \<le> length a \<and> is_quote (last a) \<and> list_all is_dot (butlast a)
          then [butlast a] else [])"
proof (cases "quoted_argument t")
  case None
  then show ?thesis by (simp add: group_at_def rmatch_EXECUTOR_PRE)
next
  case (Some qa)
  obtain q a where qa: "qa = (q, a)" by (cases qa)
  from Some qa have s: "suffix (q # a) t" using quoted_argument_suffix by blast
  then have ne: "t \<noteq> []" by (auto simp: suffix_def)
  have a: "a = [] \<or> \<not> is_space (last a)"
  proof (cases "a = []")
    case False
    then have "last (q # a) = last a" by simp
    moreover from s have "last (q # a) = last t" by (rule suffix_last) simp
    ultimately show ?thesis using assms ne by simp
  qed simp
  have "group_at EXECUTOR_PRE EXECUTOR_GROUP EXECUTOR_POST (length t) t =
      concat (map (\<lambda>b. if rmatch EXECUTOR_POST (length t) b = [] then []
                         else [take (length a - length b) a])
                  (rmatch EXECUTOR_GROUP (length t) a))"
    by (simp add: group_at_def rmatch_EXECUTOR_PRE Some qa)
  also note group_at_argument [OF a]
  finally show ?thesis by (simp add: Some qa)
qed

lemma group_at_EXECUTOR_later:
  "length s \<noteq> n \<Longrightarrow> group_at EXECUTOR_PRE grp post n s = []"
proof -
  assume "length s \<noteq> n"
  then have "rmatch EXECUTOR_PRE n s = []"
    unfolding EXECUTOR_PRE_def seqs.simps by (rule rmatch_Bol_later)
  then show ?thesis by (simp add: group_at_def)
qed

lemma search_group_EXECUTOR_later:
  "length s < n \<Longrightarrow> search_group EXECUTOR_PRE grp post n s = None"
proof (induction s)
  case Nil
  then show ?case by (simp add: group_at_EXECUTOR_later)
next
  case (Cons c cs)
  then show ?case by (simp add: group_at_EXECUTOR_later)
qed

lemma match_group_EXECUTOR:
  "match_group EXECUTOR_PRE grp post t =
     (case group_at EXECUTOR_PRE grp post (length t) t of [] \<Rightarrow> None | g # _ \<Rightarrow> Some g)"
proof (cases t)
  case Nil
  then show ?thesis by (simp add: match_group_def)
next
  case (Cons c cs)
  have "search_group EXECUTOR_PRE grp post (length t) cs = None"
    by (rule search_group_EXECUTOR_later) (simp add: Cons)
  then show ?thesis
    unfolding match_group_def Cons
    by (cases "group_at EXECUTOR_PRE grp post (length (c # cs)) (c # cs)") simp_all
qed

lemma trimmed: "trim s = [] \<or> \<not> is_space (last (trim s))"
  using trim_no_trailing [of s] by blast

text \<open>What \<open>unwrapShellExecutor\<close> returns for a string, in closed form.\<close>

lemma unwrapShellExecutor_closed:
  "unwrapShellExecutor (JStr s) =
     (case quoted_argument (trim s) of
        None \<Rightarrow> JStr s
      | Some (q, a) \<Rightarrow>
          if 2 \<le> length a \<and> is_quote (last a) \<and> list_all is_dot (butlast a)
          then JStr (butlast a) else JStr s)"
proof (cases "s = []")
  case True
  then show ?thesis
    by (simp add: trim_def quoted_argument_def after_head_def js_def)
next
  case False
  show ?thesis
  proof (cases "quoted_argument (trim s)")
    case None
    with False show ?thesis
      by (simp add: match_group_EXECUTOR group_at_EXECUTOR [OF trimmed])
  next
    case (Some qa)
    obtain q a where qa: "qa = (q, a)" by (cases qa)
    with False Some show ?thesis
      by (simp add: match_group_EXECUTOR group_at_EXECUTOR [OF trimmed])
  qed
qed

lemmas executor_defs = executor_inner_def single_quoted_inner_def quoted_argument_def
  after_head_def after_dash_c_def after_spaces_def




section \<open>isAllowedCommand\<close>

text \<open>
  C4 fails on the code.  \<open>isVenvExecutable\<close> (``Check if command executes from a .venv bin
  directory'') tests \<open>VENV_EXECUTABLE_PATTERN\<close> anywhere in the normalized command, not
  on its leading token.  In \<open>cat a/.venv/bin/x\<close> the leading token is \<open>cat\<close>, normalization
  changes nothing, neither the build, the tool nor the creation pattern matches, and the
  command classifies as allowed because of the path in its argument.
\<close>

theorem venv_path_in_argument_is_allowed:
  "takeWhile non_space (js ''cat a/.venv/bin/x'') = js ''cat'' \<and>
   stripCommandPrefix (JStr (js ''cat a/.venv/bin/x'')) = JStr (js ''cat a/.venv/bin/x'') \<and>
   \<not> isBuildCommand (JStr (js ''cat a/.venv/bin/x'')) \<and>
   \<not> isVenvCreationCommand (JStr (js ''cat a/.venv/bin/x'')) \<and>
   \<not> isVenvExecutable (JStr (js ''cat'')) \<and>
   isVenvExecutable (JStr (js ''cat a/.venv/bin/x'')) \<and>
   isAllowedCommand (JStr (js ''cat a/.venv/bin/x''))"
proof -
  have 1: "takeWhile non_space (js ''cat a/.venv/bin/x'') = js ''cat''"
    by (simp add: js_def non_space_def is_space_def)
  have 2: "stripCommandPrefix (JStr (js ''cat a/.venv/bin/x'')) = JStr (js ''cat a/.venv/bin/x'')"
    by (simp add: eval_defs)
  have 3: "\<not> isBuildCommand (JStr (js ''cat a/.venv/bin/x''))"
    by (simp add: eval_defs)
  have 4: "\<not> isVenvCreationCommand (JStr (js ''cat a/.venv/bin/x''))"
    by (simp add: eval_defs)
  have 5: "\<not> isVenvExecutable (JStr (js ''cat''))"
    by (simp add: eval_defs)
  have 6: "isVenvExecutable (JStr (js ''cat a/.venv/bin/x''))"
    by (simp add: eval_defs)
  have 7: "isAllowedCommand (JStr (js ''cat a/.venv/bin/x''))"
    by (simp add: eval_defs)
  from 1 2 3 4 5 6 7 show ?thesis by (intro conjI)
qed

end
